theory Spec2Isabelle
  imports Main "HOL-Library.Word" "HOL-Library.AList" "HOL-Library.Product_Lexorder"
begin

unbundle bit_operations_syntax

section \<open>Common types\<close>

text \<open>
  Bit strings and DNA strings are Python \<open>str\<close> values, modelled as \<open>string\<close>.
  Bytes are 8-bit words, the CRC register is a 32-bit word. Sizes, lengths, loop indices
  and addresses are natural numbers (the code obtains them from \<open>len\<close>, \<open>range\<close> and
  counters that start at 0 or 1). Exceptions are values of the type \<open>error\<close>.
\<close>

type_synonym byte = "8 word"

datatype error = ValueError | KeyError | IndexError | OverflowError | ZeroDivisionError
  | FileNotFoundError

text \<open>
  \<open>random.choice\<close> reads a source of randomness. The source is modelled as an arbitrary
  infinite sequence of naturals: a call picks element number \<open>g 0 mod length xs\<close> and
  leaves the rest of the sequence for later calls. Every statement about the encoder is
  made for all such sequences.
\<close>

type_synonym rng = "nat \<Rightarrow> nat"

definition random_choice :: "rng \<Rightarrow> 'a list \<Rightarrow> error + ('a \<times> rng)" where
  "random_choice g xs =
     (if xs = [] then Inl IndexError
      else Inr (xs ! (g 0 mod length xs), (\<lambda>n. g (Suc n))))"

text \<open>Two concrete choice policies: always the first synonym, always the second.\<close>

definition first_synonym :: rng where
  "first_synonym n = 0"

definition second_synonym :: rng where
  "second_synonym n = 1"

section \<open>Encoder (church\_algorithm\_encoder.py)\<close>

definition BIT_TO_BASE :: "char \<Rightarrow> string option" where
  "BIT_TO_BASE b =
     (if b = CHR ''0'' then Some ''AC''
      else if b = CHR ''1'' then Some ''GT''
      else None)"

definition DEFAULT_FORWARD_PRIMER :: string where
  "DEFAULT_FORWARD_PRIMER = ''CTACACGACGCTCTTCCGATCT''"

definition DEFAULT_REVERSE_PRIMER :: string where
  "DEFAULT_REVERSE_PRIMER = ''AGATCGGAAGAGCGGTTCAGCA''"

definition HOMOPOLYMER_LIMIT :: nat where
  "HOMOPOLYMER_LIMIT = 3"

text \<open>The dictionary \<open>synonyms\<close> local to \<open>avoid_homopolymer\<close>.\<close>

definition synonyms :: "char \<Rightarrow> char option" where
  "synonyms base =
     (if base = CHR ''A'' then Some (CHR ''C'')
      else if base = CHR ''C'' then Some (CHR ''A'')
      else if base = CHR ''G'' then Some (CHR ''T'')
      else if base = CHR ''T'' then Some (CHR ''G'')
      else None)"

text \<open>\<open>last_bases[-HOMOPOLYMER_LIMIT:]\<close>: the last three elements, or all of a shorter list.\<close>

definition last_slice :: "nat \<Rightarrow> 'a list \<Rightarrow> 'a list" where
  "last_slice n xs = drop (length xs - n) xs"

definition avoid_homopolymer :: "string \<Rightarrow> char \<Rightarrow> error + char" where
  "avoid_homopolymer last_bases base =
     (if length last_bases \<ge> HOMOPOLYMER_LIMIT
         \<and> list_all (\<lambda>b. b = base) (last_slice HOMOPOLYMER_LIMIT last_bases)
      then (case synonyms base of None \<Rightarrow> Inl KeyError | Some s \<Rightarrow> Inr s)
      else Inr base)"

text \<open>
  \<open>encode_bits_to_dna\<close>: one loop iteration per bit. The window \<open>last_bases\<close> is the
  caller's list, mutated in place; every caller in the repository passes a fresh copy, so
  the model returns the DNA string and the remaining randomness only.
\<close>

fun encode_bits_to_dna :: "rng \<Rightarrow> string \<Rightarrow> string \<Rightarrow> error + (string \<times> rng)" where
  "encode_bits_to_dna g [] last_bases = Inr ([], g)"
| "encode_bits_to_dna g (b # bits) last_bases =
     (case BIT_TO_BASE b of
        None \<Rightarrow> Inl KeyError
      | Some syns \<Rightarrow>
          (case random_choice g syns of
             Inl e \<Rightarrow> Inl e
           | Inr (chosen, g1) \<Rightarrow>
               (case avoid_homopolymer last_bases chosen of
                  Inl e \<Rightarrow> Inl e
                | Inr base \<Rightarrow>
                    (let appended = last_bases @ [base];
                         window = (if length appended > HOMOPOLYMER_LIMIT
                                   then tl appended else appended)
                     in case encode_bits_to_dna g1 bits window of
                          Inl e \<Rightarrow> Inl e
                        | Inr (dna_seq, g2) \<Rightarrow> Inr (base # dna_seq, g2)))))"

subsection \<open>Python built-ins used by the encoder and the decoder\<close>

text \<open>\<open>f"{n:b}"\<close>: the binary digits of a non-negative integer, most significant first.\<close>

definition bin_digit :: "nat \<Rightarrow> char" where
  "bin_digit d = (if d = 0 then CHR ''0'' else CHR ''1'')"

fun bin_str :: "nat \<Rightarrow> string" where
  "bin_str n = (if n < 2 then [bin_digit n] else bin_str (n div 2) @ [bin_digit (n mod 2)])"

declare bin_str.simps [simp del]

text \<open>
  \<open>f"{n:019b}"\<close>, \<open>f"{n:032b}"\<close>, \<open>f"{n:08b}"\<close>: zero-padded to a minimum width. The
  width is a minimum only: a value of more digits is printed in full.
\<close>

definition format_0b :: "nat \<Rightarrow> nat \<Rightarrow> string" where
  "format_0b width n = replicate (width - length (bin_str n)) (CHR ''0'') @ bin_str n"

text \<open>\<open>s.ljust(width, fill)\<close> and the slice \<open>s[a:b]\<close> for \<open>0 \<le> a\<close>, \<open>0 \<le> b\<close>.\<close>

definition ljust :: "nat \<Rightarrow> char \<Rightarrow> string \<Rightarrow> string" where
  "ljust width fill s = s @ replicate (width - length s) fill"

definition py_slice :: "nat \<Rightarrow> nat \<Rightarrow> 'a list \<Rightarrow> 'a list" where
  "py_slice a b xs = drop a (take b xs)"

definition is_bit :: "char \<Rightarrow> bool" where
  "is_bit c = (c = CHR ''0'' \<or> c = CHR ''1'')"

definition bit_value :: "char \<Rightarrow> nat" where
  "bit_value c = (if c = CHR ''1'' then 1 else 0)"

text \<open>
  \<open>int(s, 2)\<close> on the strings the repository passes to it, which consist of the characters
  0 and 1: the empty string raises \<open>ValueError\<close>. Python also accepts a sign, a \<open>0b\<close>
  prefix, underscores and surrounding whitespace; no caller produces them, and the model
  answers \<open>ValueError\<close> for every string with another character.
\<close>

definition binary_value :: "string \<Rightarrow> nat" where
  "binary_value s = foldl (\<lambda>acc c. 2 * acc + bit_value c) 0 s"

definition int_base2 :: "string \<Rightarrow> error + nat" where
  "int_base2 s =
     (if s = [] \<or> \<not> list_all is_bit s then Inl ValueError
      else Inr (binary_value s))"

text \<open>\<open>v.to_bytes(n, byteorder='big')\<close>: \<open>OverflowError\<close> when \<open>v\<close> needs more than \<open>n\<close> bytes.\<close>

fun big_endian :: "nat \<Rightarrow> nat \<Rightarrow> byte list" where
  "big_endian 0 v = []"
| "big_endian (Suc n) v = word_of_nat (v div 256 ^ n) # big_endian n (v mod 256 ^ n)"

definition to_bytes :: "nat \<Rightarrow> nat \<Rightarrow> error + byte list" where
  "to_bytes v n = (if v \<ge> 256 ^ n then Inl OverflowError else Inr (big_endian n v))"

text \<open>
  \<open>zlib.crc32\<close> is library code. It is modelled by the bitwise definition of CRC-32
  (reflected polynomial \<open>0xEDB88320\<close>, initial register and final complement
  \<open>0xFFFFFFFF\<close>), one shift per message bit, least significant bit of each byte first.
\<close>

definition crc32_poly :: "32 word" where
  "crc32_poly = 0xEDB88320"

definition crc32_shift :: "32 word \<Rightarrow> 32 word" where
  "crc32_shift c = (if bit c 0 then drop_bit 1 c XOR crc32_poly else drop_bit 1 c)"

definition crc32_byte :: "32 word \<Rightarrow> byte \<Rightarrow> 32 word" where
  "crc32_byte c b = (crc32_shift ^^ 8) (c XOR ucast b)"

definition zlib_crc32 :: "byte list \<Rightarrow> 32 word" where
  "zlib_crc32 bs = foldl crc32_byte 0xFFFFFFFF bs XOR 0xFFFFFFFF"

subsection \<open>Checksum and segment encoding\<close>

definition calculate_crc32_checksum :: "string \<Rightarrow> error + string" where
  "calculate_crc32_checksum data_bits =
     (case int_base2 data_bits of
        Inl e \<Rightarrow> Inl e
      | Inr v \<Rightarrow>
          (case to_bytes v ((length data_bits + 7) div 8) of
             Inl e \<Rightarrow> Inl e
           | Inr byte_data \<Rightarrow> Inr (format_0b 32 (unat (zlib_crc32 byte_data)))))"

text \<open>
  An element of \<open>oligos_with_details\<close>: address bits, data bits, checksum bits, complete
  oligo.
\<close>

type_synonym oligo_details = "string \<times> string \<times> string \<times> string"

text \<open>
  The body of the \<open>for\<close> loop of \<open>bits_to_dna_with_crc32\<close> after the address check, for
  the segment that starts at bit \<open>i\<close>. The three fields are encoded from three copies of
  the window \<open>last_bases\<close>, which is empty throughout (only the copies are mutated).
  A primer that is \<open>None\<close> or empty is falsy and is not added; both are the empty string
  here.
\<close>

definition encode_segment ::
  "rng \<Rightarrow> string \<Rightarrow> string \<Rightarrow> string \<Rightarrow> nat \<Rightarrow> nat \<Rightarrow> nat \<Rightarrow> error + (oligo_details \<times> rng)" where
  "encode_segment g bits forward_primer reverse_primer segment_length i address =
     (let address_bits = format_0b 19 address in
      case encode_bits_to_dna g address_bits [] of
        Inl e \<Rightarrow> Inl e
      | Inr (address_dna, g1) \<Rightarrow>
          (let data_bits = ljust 96 (CHR ''0'') (py_slice i (i + segment_length * 8) bits) in
           case calculate_crc32_checksum data_bits of
             Inl e \<Rightarrow> Inl e
           | Inr crc32_checksum_bits \<Rightarrow>
               (case encode_bits_to_dna g1 data_bits [] of
                  Inl e \<Rightarrow> Inl e
                | Inr (data_dna, g2) \<Rightarrow>
                    (case encode_bits_to_dna g2 crc32_checksum_bits [] of
                       Inl e \<Rightarrow> Inl e
                     | Inr (crc32_dna, g3) \<Rightarrow>
                         (let core_oligo = address_dna @ data_dna @ crc32_dna;
                              with_forward = (if forward_primer \<noteq> []
                                              then forward_primer @ core_oligo else core_oligo);
                              complete_oligo = (if reverse_primer \<noteq> []
                                                then with_forward @ reverse_primer
                                                else with_forward)
                          in Inr ((address_bits, data_bits, crc32_checksum_bits, complete_oligo),
                                  g3))))))"

text \<open>
  The loop \<open>for i in range(0, len(bits), segment_length * 8)\<close> with its counter
  \<open>address\<close>; \<open>break\<close> ends it with the segments collected so far. A step of 0 makes
  \<open>range\<close> raise \<open>ValueError\<close>.
\<close>

function segment_loop ::
  "rng \<Rightarrow> string \<Rightarrow> string \<Rightarrow> string \<Rightarrow> nat \<Rightarrow> nat \<Rightarrow> nat \<Rightarrow> nat
     \<Rightarrow> error + (oligo_details list \<times> rng)" where
  "segment_loop g bits forward_primer reverse_primer segment_length max_address i address =
     (if segment_length = 0 then Inl ValueError
      else if length bits \<le> i then Inr ([], g)
      else if address > max_address then Inr ([], g)
      else
        (case encode_segment g bits forward_primer reverse_primer segment_length i address of
           Inl e \<Rightarrow> Inl e
         | Inr (details, g1) \<Rightarrow>
             (case segment_loop g1 bits forward_primer reverse_primer segment_length
                     max_address (i + segment_length * 8) (address + 1) of
                Inl e \<Rightarrow> Inl e
              | Inr (oligos_with_details, g2) \<Rightarrow> Inr (details # oligos_with_details, g2))))"
  by pat_completeness auto
termination
  by (relation "measure (\<lambda>(g, bits, fp, rp, segment_length, max_address, i, address).
                  length bits - i)") auto

declare segment_loop.simps [simp del]

definition bits_to_dna_with_crc32 ::
  "rng \<Rightarrow> string \<Rightarrow> string \<Rightarrow> string \<Rightarrow> nat \<Rightarrow> nat \<Rightarrow> error + (oligo_details list \<times> rng)" where
  "bits_to_dna_with_crc32 g bits forward_primer reverse_primer segment_length max_address =
     (if \<not> list_all is_bit bits then Inl ValueError
      else segment_loop g bits forward_primer reverse_primer segment_length max_address 0 1)"

subsection \<open>File encoding\<close>

text \<open>\<open>read_binary_file\<close>: the file's bytes as a bit string, and the file size.\<close>

definition read_binary_file :: "byte list \<Rightarrow> string \<times> nat" where
  "read_binary_file binary_data =
     (concat (map (\<lambda>byte. format_0b 8 (unat byte)) binary_data), length binary_data)"

text \<open>
  A row of the CSV file written by \<open>save_to_csv_with_blocks\<close>, in column order. The
  delimited text format itself is not modelled: a row carries the values the encoder
  writes and the decoder parses back.
\<close>

record csv_row =
  row_block_index :: nat
  row_address :: string
  row_data_bits :: string
  row_crc32 :: string
  row_oligo :: string
  row_block_size :: nat
  row_actual_block_size :: nat
  row_total_file_size :: nat

text \<open>
  The body of the loop \<open>for block_index in range(num_blocks)\<close> of
  \<open>encode_file_to_dna\<close>: the rows of one block. Each element of
  \<open>all_oligos_with_details\<close> is written as one row with the two file-level columns added.
\<close>

definition block_body ::
  "rng \<Rightarrow> string \<Rightarrow> string \<Rightarrow> string \<Rightarrow> nat \<Rightarrow> nat \<Rightarrow> nat \<Rightarrow> error + (csv_row list \<times> rng)" where
  "block_body g bits forward_primer reverse_primer block_size_bytes total_data_size block_index =
     (let bytes_per_oligo = 12;
          oligos_per_block = (block_size_bytes + bytes_per_oligo - 1) div bytes_per_oligo;
          start_bit = block_index * block_size_bytes * 8;
          end_bit = min (start_bit + block_size_bytes * 8) (length bits);
          block_bits = py_slice start_bit end_bit bits;
          actual_block_bytes = (length block_bits + 7) div 8;
          actual_oligos_needed = (actual_block_bytes + bytes_per_oligo - 1) div bytes_per_oligo;
          max_address_for_block = min oligos_per_block actual_oligos_needed
      in case bits_to_dna_with_crc32 g block_bits forward_primer reverse_primer
                bytes_per_oligo max_address_for_block of
           Inl e \<Rightarrow> Inl e
         | Inr (block_oligos, g1) \<Rightarrow>
             Inr (map (\<lambda>(address_bits, data_bits, crc32_bits, oligo).
                         \<lparr> row_block_index = block_index,
                           row_address = address_bits,
                           row_data_bits = data_bits,
                           row_crc32 = crc32_bits,
                           row_oligo = oligo,
                           row_block_size = block_size_bytes,
                           row_actual_block_size = actual_block_bytes,
                           row_total_file_size = total_data_size \<rparr>) block_oligos, g1))"

text \<open>The loop itself, over the list of block indices still to do.\<close>

fun block_loop ::
  "rng \<Rightarrow> string \<Rightarrow> string \<Rightarrow> string \<Rightarrow> nat \<Rightarrow> nat \<Rightarrow> nat list \<Rightarrow> error + (csv_row list \<times> rng)" where
  "block_loop g bits forward_primer reverse_primer block_size_bytes total_data_size [] = Inr ([], g)"
| "block_loop g bits forward_primer reverse_primer block_size_bytes total_data_size
     (block_index # remaining) =
     (case block_body g bits forward_primer reverse_primer block_size_bytes total_data_size
             block_index of
        Inl e \<Rightarrow> Inl e
      | Inr (block_rows, g1) \<Rightarrow>
          (case block_loop g1 bits forward_primer reverse_primer block_size_bytes
                  total_data_size remaining of
             Inl e \<Rightarrow> Inl e
           | Inr (later_rows, g2) \<Rightarrow> Inr (block_rows @ later_rows, g2)))"

text \<open>
  \<open>encode_file_to_dna\<close> on the content of the input file. A primer argument of \<open>None\<close>
  selects the default primer. The result is the rows written to the CSV file, the
  returned triple (number of oligos, input size, number of blocks) and the remaining
  randomness. A block size of 0 raises \<open>ZeroDivisionError\<close>.
\<close>

definition encode_file_to_dna ::
  "rng \<Rightarrow> byte list \<Rightarrow> string option \<Rightarrow> string option \<Rightarrow> bool \<Rightarrow> nat \<Rightarrow> nat
     \<Rightarrow> error + (csv_row list \<times> (nat \<times> nat \<times> nat) \<times> rng)" where
  "encode_file_to_dna g input_file forward_primer reverse_primer check_file_size
     max_file_size block_size_bytes =
     (let forward_primer = (case forward_primer of None \<Rightarrow> DEFAULT_FORWARD_PRIMER | Some p \<Rightarrow> p);
          reverse_primer = (case reverse_primer of None \<Rightarrow> DEFAULT_REVERSE_PRIMER | Some p \<Rightarrow> p)
      in if forward_primer \<noteq> [] \<and> length forward_primer \<noteq> 22 then Inl ValueError
         else if reverse_primer \<noteq> [] \<and> length reverse_primer \<noteq> 22 then Inl ValueError
         else
           (let file_size = length input_file in
            if check_file_size \<and> file_size > max_file_size then Inl ValueError
            else
              (case read_binary_file input_file of
                 (bits, total_data_size) \<Rightarrow>
                   (let total_bytes = length bits div 8 in
                    if block_size_bytes = 0 then Inl ZeroDivisionError
                    else
                      (let num_blocks = (total_bytes + block_size_bytes - 1) div block_size_bytes in
                       case block_loop g bits forward_primer reverse_primer block_size_bytes
                              total_data_size [0..<num_blocks] of
                         Inl e \<Rightarrow> Inl e
                       | Inr (all_rows, g1) \<Rightarrow>
                           Inr (all_rows, (length all_rows, total_data_size, num_blocks), g1))))))"

section \<open>Decoder (church\_algorithm\_decoder.py)\<close>

definition BASE_TO_BIT :: "char \<Rightarrow> char option" where
  "BASE_TO_BIT base =
     (if base = CHR ''A'' then Some (CHR ''0'')
      else if base = CHR ''C'' then Some (CHR ''0'')
      else if base = CHR ''G'' then Some (CHR ''1'')
      else if base = CHR ''T'' then Some (CHR ''1'')
      else None)"

text \<open>\<open>decode_dna_to_bits\<close>: a symbol outside the table raises \<open>KeyError\<close>.\<close>

fun decode_dna_to_bits :: "string \<Rightarrow> error + string" where
  "decode_dna_to_bits [] = Inr []"
| "decode_dna_to_bits (base # rest) =
     (case BASE_TO_BIT base of
        None \<Rightarrow> Inl KeyError
      | Some b \<Rightarrow>
          (case decode_dna_to_bits rest of
             Inl e \<Rightarrow> Inl e
           | Inr bits \<Rightarrow> Inr (b # bits)))"


definition verify_crc32_checksum :: "string \<Rightarrow> string \<Rightarrow> error + bool" where
  "verify_crc32_checksum data_bits checksum_bits =
     (case int_base2 data_bits of
        Inl e \<Rightarrow> Inl e
      | Inr v \<Rightarrow>
          (case to_bytes v ((length data_bits + 7) div 8) of
             Inl e \<Rightarrow> Inl e
           | Inr byte_data \<Rightarrow>
               (let calculated_checksum = zlib_crc32 byte_data;
                    calculated_checksum_bits = format_0b 32 (unat calculated_checksum)
                in Inr (calculated_checksum_bits = checksum_bits))))"

text \<open>\<open>s.startswith(p)\<close> and \<open>s.endswith(p)\<close>.\<close>

definition startswith :: "string \<Rightarrow> string \<Rightarrow> bool" where
  "startswith s p = (take (length p) s = p)"

definition endswith :: "string \<Rightarrow> string \<Rightarrow> bool" where
  "endswith s p = (length p \<le> length s \<and> drop (length s - length p) s = p)"

text \<open>
  The variable \<open>core_sequence\<close> of \<open>extract_oligo_parts\<close> after the two primer checks:
  the forward primer is removed when the oligo starts with it, then the reverse primer
  when what is left ends with it. A primer that is \<open>None\<close> or empty is falsy; both are the
  empty string.
\<close>

definition core_sequence :: "string \<Rightarrow> string \<Rightarrow> string \<Rightarrow> string" where
  "core_sequence oligo forward_primer reverse_primer =
     (let core = oligo;
          core = (if forward_primer \<noteq> [] \<and> startswith oligo forward_primer
                  then drop (length forward_primer) core
                  else core);
          core = (if reverse_primer \<noteq> [] \<and> endswith core reverse_primer
                  then take (length core - length reverse_primer) core
                  else core)
      in core)"

text \<open>
  \<open>extract_oligo_parts\<close>: the triple of \<open>None\<close>s returned for a core that is too short is
  the value \<open>None\<close> here.
\<close>

definition extract_oligo_parts :: "string \<Rightarrow> string \<Rightarrow> string \<Rightarrow> (string \<times> string \<times> string) option" where
  "extract_oligo_parts oligo forward_primer reverse_primer =
     (let core = core_sequence oligo forward_primer reverse_primer
      in if length core \<ge> 19 + 96
         then Some (take 19 core, py_slice 19 (19 + 96) core, drop (19 + 96) core)
         else None)"

text \<open>
  \<open>s.strip()\<close>: leading and trailing whitespace removed. A character is a code point
  below 256; those for which \<open>str.isspace\<close> holds are the ASCII whitespace characters 9
  to 13 and 28 to 32, the next-line character \<open>0x85\<close> and the no-break space \<open>0xA0\<close>.
\<close>

definition is_space :: "char \<Rightarrow> bool" where
  "is_space c = ((of_char c :: nat) \<in> {9, 10, 11, 12, 13, 28, 29, 30, 31, 32, 133, 160})"

definition strip :: "string \<Rightarrow> string" where
  "strip s = rev (dropWhile is_space (rev (dropWhile is_space s)))"

record crc_stats =
  valid :: nat
  invalid :: nat
  missing :: nat

text \<open>
  The dictionary \<open>block_info\<close>; \<open>actual_block_sizes\<close> is a dictionary from block index to
  size, kept as an association list.
\<close>

record block_info =
  info_block_size_bytes :: nat
  info_block_count :: nat
  info_total_file_size :: nat
  info_actual_block_sizes :: "(nat \<times> nat) list"
  info_crc_stats :: crc_stats

text \<open>The messages appended to the list \<open>errors\<close>, each with its row number.\<close>

datatype row_error =
    ExtractFailed nat
  | ChecksumFailed nat
  | ProcessingError nat error

text \<open>
  The variables of \<open>decode_oligos_from_csv\<close> that the loop over the rows updates.
  \<open>decoded_blocks\<close> is a dictionary from (block index, address) to data bits, kept as an
  association list in insertion order.
\<close>

record decode_state =
  decoded_blocks :: "((nat \<times> nat) \<times> string) list"
  errors :: "row_error list"
  block_info :: block_info
  block_indices :: "nat set"

definition initial_decode_state :: decode_state where
  "initial_decode_state =
     \<lparr> decoded_blocks = [],
       errors = [],
       block_info = \<lparr> info_block_size_bytes = 0, info_block_count = 0,
                      info_total_file_size = 0, info_actual_block_sizes = [],
                      info_crc_stats = \<lparr> valid = 0, invalid = 0, missing = 0 \<rparr> \<rparr>,
       block_indices = {} \<rparr>"

definition add_error :: "row_error \<Rightarrow> decode_state \<Rightarrow> decode_state" where
  "add_error e st = st\<lparr> errors := errors st @ [e] \<rparr>"

definition count_valid :: "decode_state \<Rightarrow> decode_state" where
  "count_valid st =
     st\<lparr> block_info := (block_info st)\<lparr> info_crc_stats :=
          (info_crc_stats (block_info st))\<lparr> valid := valid (info_crc_stats (block_info st)) + 1 \<rparr> \<rparr> \<rparr>"

definition count_invalid :: "decode_state \<Rightarrow> decode_state" where
  "count_invalid st =
     st\<lparr> block_info := (block_info st)\<lparr> info_crc_stats :=
          (info_crc_stats (block_info st))\<lparr> invalid := invalid (info_crc_stats (block_info st)) + 1 \<rparr> \<rparr> \<rparr>"

definition count_missing :: "decode_state \<Rightarrow> decode_state" where
  "count_missing st =
     st\<lparr> block_info := (block_info st)\<lparr> info_crc_stats :=
          (info_crc_stats (block_info st))\<lparr> missing := missing (info_crc_stats (block_info st)) + 1 \<rparr> \<rparr> \<rparr>"

text \<open>
  The last two statements of the loop body: the address is parsed and the data bits are
  stored under (block index, address). A failure of \<open>int\<close> is caught by the \<open>except\<close>
  clause of the row.
\<close>

definition store_segment :: "nat \<Rightarrow> nat \<Rightarrow> string \<Rightarrow> string \<Rightarrow> decode_state \<Rightarrow> decode_state" where
  "store_segment row_num block_index address_bits data_bits st =
     (case int_base2 address_bits of
        Inl e \<Rightarrow> add_error (ProcessingError row_num e) st
      | Inr address \<Rightarrow>
          st\<lparr> decoded_blocks := AList.update (block_index, address) data_bits (decoded_blocks st) \<rparr>)"

text \<open>
  The first statements of the loop body after the oligo is read: the block index is
  added to \<open>block_indices\<close> and the three size columns are copied to \<open>block_info\<close>. The
  encoder writes every column, so every cell is present and non-empty and the
  assignments are made for each row.
\<close>

definition note_metadata :: "csv_row \<Rightarrow> decode_state \<Rightarrow> decode_state" where
  "note_metadata row st =
     (let block_index = row_block_index row;
          st = st\<lparr> block_indices := insert block_index (block_indices st) \<rparr>;
          st = st\<lparr> block_info := (block_info st)\<lparr> info_block_size_bytes := row_block_size row \<rparr> \<rparr>;
          st = st\<lparr> block_info := (block_info st)\<lparr> info_actual_block_sizes :=
                   AList.update block_index (row_actual_block_size row)
                     (info_actual_block_sizes (block_info st)) \<rparr> \<rparr>;
          st = st\<lparr> block_info := (block_info st)\<lparr> info_total_file_size := row_total_file_size row \<rparr> \<rparr>
      in st)"

text \<open>
  One iteration of the loop over the rows, that is the \<open>try\<close> block with its \<open>except\<close>
  clause: an exception raised in the block is recorded in \<open>errors\<close> and the loop goes on;
  the updates made before it stay.
\<close>

definition decode_row :: "string \<Rightarrow> string \<Rightarrow> decode_state \<Rightarrow> nat \<times> csv_row \<Rightarrow> decode_state" where
  "decode_row forward_primer reverse_primer st numbered_row =
     (case numbered_row of (row_num, row) \<Rightarrow>
      (let oligo = strip (row_oligo row);
           block_index = row_block_index row;
           st = note_metadata row st
       in case extract_oligo_parts oligo forward_primer reverse_primer of
            None \<Rightarrow> add_error (ExtractFailed row_num) st
          | Some (address_dna, data_dna, crc32_dna) \<Rightarrow>
              (case decode_dna_to_bits address_dna of
                 Inl e \<Rightarrow> add_error (ProcessingError row_num e) st
               | Inr address_bits \<Rightarrow>
                   (case decode_dna_to_bits data_dna of
                      Inl e \<Rightarrow> add_error (ProcessingError row_num e) st
                    | Inr data_bits \<Rightarrow>
                        (if crc32_dna \<noteq> [] \<and> length crc32_dna \<ge> 32 then
                           (case decode_dna_to_bits (take 32 crc32_dna) of
                              Inl e \<Rightarrow> add_error (ProcessingError row_num e) st
                            | Inr crc32_bits \<Rightarrow>
                                (case verify_crc32_checksum data_bits crc32_bits of
                                   Inl e \<Rightarrow> add_error (ProcessingError row_num e) st
                                 | Inr crc_valid \<Rightarrow>
                                     (if crc_valid
                                      then store_segment row_num block_index address_bits
                                             data_bits (count_valid st)
                                      else add_error (ChecksumFailed row_num)
                                             (count_invalid st))))
                         else store_segment row_num block_index address_bits data_bits
                                (count_missing st))))))"

text \<open>
  The part of \<open>decode_oligos_from_csv\<close> after the loop that writes the output file:
  the bytes written, or \<open>None\<close> when the file is not written. An exception here is not
  caught inside the function.
\<close>

definition write_decoded :: "bool \<Rightarrow> decode_state \<Rightarrow> error + byte list option" where
  "write_decoded output_file st =
     (if output_file \<and> decoded_blocks st \<noteq> [] then
        (let sorted_keys = sort (map fst (decoded_blocks st));
             reconstructed_bitstream =
               concat (map (\<lambda>key. the (map_of (decoded_blocks st) key)) sorted_keys);
             reconstructed_bitstream =
               (if info_total_file_size (block_info st) > 0
                then take (info_total_file_size (block_info st) * 8) reconstructed_bitstream
                else reconstructed_bitstream);
             bit_length = length reconstructed_bitstream;
             byte_length = bit_length div 8
         in if byte_length > 0 then
              (case int_base2 (take (byte_length * 8) reconstructed_bitstream) of
                 Inl e \<Rightarrow> Inl e
               | Inr v \<Rightarrow>
                   (case to_bytes v byte_length of
                      Inl e \<Rightarrow> Inl e
                    | Inr byte_data \<Rightarrow> Inr (Some byte_data)))
            else Inr None)
      else Inr None)"

text \<open>The loop over the rows of the CSV file, numbered from 2 (row 1 is the header).\<close>

definition decode_rows :: "string \<Rightarrow> string \<Rightarrow> csv_row list \<Rightarrow> decode_state" where
  "decode_rows forward_primer reverse_primer csv_rows =
     foldl (decode_row forward_primer reverse_primer) initial_decode_state
       (zip [2..<2 + length csv_rows] csv_rows)"

text \<open>
  \<open>decode_oligos_from_csv\<close> on the rows of the CSV file. \<open>output_file\<close> says whether an
  output path was given. The result is the final state (the returned \<open>decoded_blocks\<close>
  and \<open>block_info\<close>, and the list \<open>errors\<close> that the function prints) and the bytes
  written to the output file, if any.
\<close>

definition decode_oligos_from_csv ::
  "csv_row list \<Rightarrow> string \<Rightarrow> string \<Rightarrow> bool \<Rightarrow> error + (decode_state \<times> byte list option)" where
  "decode_oligos_from_csv csv_rows forward_primer reverse_primer output_file =
     (let st = decode_rows forward_primer reverse_primer csv_rows;
          st = st\<lparr> block_info := (block_info st)\<lparr> info_block_count := card (block_indices st) \<rparr> \<rparr>
      in case write_decoded output_file st of
           Inl e \<Rightarrow> Inl e
         | Inr written \<Rightarrow> Inr (st, written))"

section \<open>Device interface (church\_interface.py)\<close>

text \<open>
  The fields of a \<open>MolFSDev\<close> object that decoding and reconstruction read or write.
  \<open>temp_files\<close> is the content of the object's temporary directory: the file
  \<open>block_<i>.bin\<close> is the entry at key \<open>i\<close>. Files are modelled by their content; a
  file that does not exist has no entry.
\<close>

record molfs_dev =
  dev_Pool :: int
  dev_Block :: int
  dev_ValidDecode :: bool
  dev_block_size_bytes :: nat
  primer_registry :: "int \<times> int \<Rightarrow> (string \<times> string) option"
  temp_files :: "int \<Rightarrow> byte list option"

definition get_primers :: "molfs_dev \<Rightarrow> int \<Rightarrow> int \<Rightarrow> string \<times> string" where
  "get_primers dev pool block =
     (case primer_registry dev (pool, block) of
        Some registered \<Rightarrow> registered
      | None \<Rightarrow> (DEFAULT_FORWARD_PRIMER, DEFAULT_REVERSE_PRIMER))"

text \<open>
  \<open>MolFSDev.decode\<close> for a CSV input file, given by its rows (the FASTQ branch is not
  modelled). The result is the updated object, the returned pair and the bytes that
  \<open>decode_oligos_from_csv\<close> wrote to \<open>out_file\<close>, if it wrote the file. The returned pair
  \<open>(True, block_info)\<close> is \<open>Some block_info\<close>, the pair \<open>(False, {})\<close> is \<open>None\<close>.
\<close>

definition decode ::
  "molfs_dev \<Rightarrow> csv_row list \<Rightarrow> molfs_dev \<times> block_info option \<times> byte list option" where
  "decode dev in_file =
     (let dev = dev\<lparr> dev_ValidDecode := False \<rparr> in
      case get_primers dev (dev_Pool dev) (dev_Block dev) of
        (forward_primer, reverse_primer) \<Rightarrow>
          (case decode_oligos_from_csv in_file forward_primer reverse_primer True of
             Inl e \<Rightarrow> (dev, None, None)
           | Inr (st, written) \<Rightarrow>
               (if decoded_blocks st \<noteq> [] then
                  (let dev = dev\<lparr> dev_ValidDecode := True \<rparr>;
                       dev = (if info_block_size_bytes (block_info st) > 0
                              then dev\<lparr> dev_block_size_bytes :=
                                          info_block_size_bytes (block_info st) \<rparr>
                              else dev)
                   in (dev, Some (block_info st), written))
                else (dev, None, written))))"

text \<open>
  An element of \<open>block_files\<close>: a CSV file with the pool and block numbers that
  \<open>reconstruct_file\<close> parses from its name \<open>pool<X>_block<Y>.csv\<close> (both are -1 when the
  name does not have this form).
\<close>

record block_file =
  file_pool :: int
  file_block :: int
  file_rows :: "csv_row list"

text \<open>
  A value of the dictionary \<open>blocks_by_index\<close>: the path of the temporary file, which
  is \<open>block_<i>.bin\<close> for the key \<open>i\<close> stored in \<open>entry_file\<close>, and the block information.
\<close>

record block_entry =
  entry_file :: int
  entry_info :: block_info

record file_info =
  total_blocks :: nat
  total_bytes :: nat
  pools_used :: "int set"

text \<open>The variables that the loop over \<open>block_files\<close> updates.\<close>

record reconstruct_state =
  rs_dev :: molfs_dev
  blocks_by_index :: "(int \<times> block_entry) list"
  rs_file_info :: file_info

definition initial_reconstruct_state :: "molfs_dev \<Rightarrow> reconstruct_state" where
  "initial_reconstruct_state dev =
     \<lparr> rs_dev = dev,
       blocks_by_index = [],
       rs_file_info = \<lparr> total_blocks = 0, total_bytes = 0, pools_used = {} \<rparr> \<rparr>"

text \<open>
  The part of the loop body after \<open>self.decode\<close> has returned \<open>block_info\<close> with
  success: the pool is recorded, and the block is entered in \<open>blocks_by_index\<close> when it is
  new or when it has more valid checksums than the entry already there.
\<close>

definition keep_block :: "int \<Rightarrow> int \<Rightarrow> block_info \<Rightarrow> reconstruct_state \<Rightarrow> reconstruct_state" where
  "keep_block pool_idx block_idx info rs =
     (let rs = rs\<lparr> rs_file_info := (rs_file_info rs)\<lparr> pools_used :=
                   insert pool_idx (pools_used (rs_file_info rs)) \<rparr> \<rparr>;
          temp_out_file = block_idx
      in case map_of (blocks_by_index rs) block_idx of
           Some existing_block \<Rightarrow>
             (if valid (info_crc_stats info) > valid (info_crc_stats (entry_info existing_block))
              then rs\<lparr> blocks_by_index := AList.update block_idx
                          \<lparr> entry_file = temp_out_file, entry_info = info \<rparr>
                          (blocks_by_index rs) \<rparr>
              else rs)
         | None \<Rightarrow>
             rs\<lparr> blocks_by_index := AList.update block_idx
                    \<lparr> entry_file = temp_out_file, entry_info = info \<rparr>
                    (blocks_by_index rs) \<rparr>)"

text \<open>
  One iteration of the loop over \<open>block_files\<close>. The output path handed to \<open>self.decode\<close>
  is \<open>block_<block_idx>.bin\<close> in the temporary directory, whatever the pool.
\<close>

definition reconstruct_step :: "reconstruct_state \<Rightarrow> block_file \<Rightarrow> reconstruct_state" where
  "reconstruct_step rs csv_file =
     (let pool_idx = file_pool csv_file;
          block_idx = file_block csv_file;
          dev = (rs_dev rs)\<lparr> dev_Pool := pool_idx, dev_Block := block_idx \<rparr>;
          temp_out_file = block_idx
      in case decode dev (file_rows csv_file) of
           (dev, result, written) \<Rightarrow>
             (let dev = (case written of
                           None \<Rightarrow> dev
                         | Some byte_data \<Rightarrow>
                             dev\<lparr> temp_files := (temp_files dev)(temp_out_file \<mapsto> byte_data) \<rparr>);
                  rs = rs\<lparr> rs_dev := dev \<rparr>
              in case result of
                   Some info \<Rightarrow> keep_block pool_idx block_idx info rs
                 | None \<Rightarrow> rs))"

text \<open>
  The loop \<open>for block_idx in range(max_block_idx + 1)\<close> that copies the temporary files
  to the output file; the result is the content written.
\<close>

fun read_blocks ::
  "(int \<Rightarrow> byte list option) \<Rightarrow> (int \<times> block_entry) list \<Rightarrow> int list \<Rightarrow> error + byte list" where
  "read_blocks files blocks [] = Inr []"
| "read_blocks files blocks (block_idx # remaining) =
     (case map_of blocks block_idx of
        None \<Rightarrow> Inl KeyError
      | Some block_data \<Rightarrow>
          (case files (entry_file block_data) of
             None \<Rightarrow> Inl FileNotFoundError
           | Some data \<Rightarrow>
               (case read_blocks files blocks remaining of
                  Inl e \<Rightarrow> Inl e
                | Inr later \<Rightarrow> Inr (data @ later))))"

text \<open>
  What \<open>reconstruct_file\<close> prints when blocks are missing: the sorted block indices it
  has, and the upper end of the expected range \<open>0-<max_block_idx>\<close>.
\<close>

record missing_report =
  have_blocks :: "int list"
  expected_upto :: int

text \<open>
  The result of \<open>reconstruct_file\<close>: the returned pair, the content written to
  \<open>output_file\<close> (\<open>None\<close> when the file is not opened) and the report printed on failure.
\<close>

record reconstruct_result =
  res_success :: bool
  res_file_info :: file_info
  res_output :: "byte list option"
  res_report :: "missing_report option"

text \<open>
  \<open>reconstruct_file\<close>. The output path is taken to be outside the temporary directory.
  An exception while the temporary files are read is not caught.
\<close>

definition reconstruct_file ::
  "molfs_dev \<Rightarrow> block_file list \<Rightarrow> error + (molfs_dev \<times> reconstruct_result)" where
  "reconstruct_file dev block_files =
     (let rs = foldl reconstruct_step (initial_reconstruct_state dev) block_files;
          blocks = blocks_by_index rs;
          info = (rs_file_info rs)\<lparr> total_blocks := length blocks \<rparr>;
          max_block_idx = (if blocks \<noteq> [] then Max (set (map fst blocks)) else -1)
      in if max_block_idx \<ge> 0 \<and> list_all (\<lambda>i. i \<in> set (map fst blocks)) [0..max_block_idx]
         then
           (case read_blocks (temp_files (rs_dev rs)) blocks [0..max_block_idx] of
              Inl e \<Rightarrow> Inl e
            | Inr content \<Rightarrow>
                Inr (rs_dev rs,
                     \<lparr> res_success = True,
                       res_file_info = info\<lparr> total_bytes := length content \<rparr>,
                       res_output = Some content,
                       res_report = None \<rparr>))
         else
           Inr (rs_dev rs,
                \<lparr> res_success = False,
                  res_file_info = info,
                  res_output = None,
                  res_report = Some \<lparr> have_blocks = sort (map fst blocks),
                                      expected_upto = max_block_idx \<rparr> \<rparr>))"

section \<open>Notions used in the statements\<close>

text \<open>A symbol sequence has no run of four or more identical consecutive symbols.\<close>

fun no_run4 :: "string \<Rightarrow> bool" where
  "no_run4 (a # b # c # d # rest) = (\<not> (a = b \<and> b = c \<and> c = d) \<and> no_run4 (b # c # d # rest))"
| "no_run4 _ = True"


text \<open>
  Two decoder states hold the same decoded segments and the same checksum counters.
\<close>

definition same_segments :: "decode_state \<Rightarrow> decode_state \<Rightarrow> bool" where
  "same_segments st st' =
     (decoded_blocks st = decoded_blocks st'
      \<and> info_crc_stats (block_info st) = info_crc_stats (block_info st'))"

text \<open>A row whose oligo is only four symbols long.\<close>

definition short_row :: csv_row where
  "short_row =
     \<lparr> row_block_index = 0, row_address = [], row_data_bits = [], row_crc32 = [],
       row_oligo = ''ACGT'', row_block_size = 1024, row_actual_block_size = 12,
       row_total_file_size = 12 \<rparr>"

text \<open>The bit string with the bit at position \<open>i\<close> flipped.\<close>

definition flip_bit_at :: "nat \<Rightarrow> string \<Rightarrow> string" where
  "flip_bit_at i s = s[i := (if s ! i = CHR ''0'' then CHR ''1'' else CHR ''0'')]"

text \<open>A payload of 96 zero bits.\<close>

definition zero_payload :: string where
  "zero_payload = replicate 96 (CHR ''0'')"

text \<open>A row whose oligo is 147 symbols A, without primers.\<close>

definition poly_a_row :: csv_row where
  "poly_a_row =
     \<lparr> row_block_index = 0, row_address = [], row_data_bits = [], row_crc32 = [],
       row_oligo = replicate 147 (CHR ''A''), row_block_size = 1024,
       row_actual_block_size = 12, row_total_file_size = 12 \<rparr>"

text \<open>The data bits of the segment that starts at bit \<open>i\<close>: the slice, padded to 96 bits.\<close>

definition segment_data :: "string \<Rightarrow> nat \<Rightarrow> nat \<Rightarrow> string" where
  "segment_data bits segment_length i =
     ljust 96 (CHR ''0'') (py_slice i (i + segment_length * 8) bits)"

text \<open>
  An element of \<open>oligos_with_details\<close> is well encoded: its oligo is the forward primer,
  three encoded fields and the reverse primer; the fields decode to the address bits,
  data bits and checksum bits of the element; the checksum is that of the data bits;
  and no field has a run of four identical symbols.
\<close>

definition well_encoded :: "string \<Rightarrow> string \<Rightarrow> oligo_details \<Rightarrow> bool" where
  "well_encoded forward_primer reverse_primer x =
     (case x of (address_bits, data_bits, crc32_bits, oligo) \<Rightarrow>
        \<exists>address_dna data_dna crc32_dna.
          oligo = forward_primer @ address_dna @ data_dna @ crc32_dna @ reverse_primer
        \<and> decode_dna_to_bits address_dna = Inr address_bits
        \<and> decode_dna_to_bits data_dna = Inr data_bits
        \<and> decode_dna_to_bits crc32_dna = Inr crc32_bits
        \<and> calculate_crc32_checksum data_bits = Inr crc32_bits
        \<and> no_run4 address_dna \<and> no_run4 data_dna \<and> no_run4 crc32_dna)"

text \<open>
  The segments of a bit string from bit \<open>i\<close> on, with consecutive addresses from
  \<open>address\<close> on, each well encoded.
\<close>

fun rows_spec ::
  "string \<Rightarrow> string \<Rightarrow> string \<Rightarrow> nat \<Rightarrow> nat \<Rightarrow> nat \<Rightarrow> oligo_details list \<Rightarrow> bool" where
  "rows_spec fp rp bits segment_length i address [] = True"
| "rows_spec fp rp bits segment_length i address (x # xs) =
     (fst x = format_0b 19 address
      \<and> fst (snd x) = segment_data bits segment_length i
      \<and> well_encoded fp rp x
      \<and> rows_spec fp rp bits segment_length (i + segment_length * 8) (Suc address) xs)"

text \<open>A primer without whitespace characters.\<close>

definition no_space :: "string \<Rightarrow> bool" where
  "no_space s = list_all (\<lambda>c. \<not> is_space c) s"

text \<open>
  A row as the encoder writes it: its columns and oligo form a well-encoded element
  whose address field has 19 bits and whose payload field has 96 bits.
\<close>

definition row_ok :: "string \<Rightarrow> string \<Rightarrow> csv_row \<Rightarrow> bool" where
  "row_ok fp rp r =
     (well_encoded fp rp (row_address r, row_data_bits r, row_crc32 r, row_oligo r)
      \<and> length (row_address r) = 19 \<and> length (row_data_bits r) = 96)"

text \<open>The key under which the decoder stores the payload of a row.\<close>

definition row_key :: "csv_row \<Rightarrow> nat \<times> nat" where
  "row_key r = (row_block_index r, binary_value (row_address r))"

text \<open>
  A block's bit string as the encoder stores it: cut into 96-bit payloads, the last
  one filled with zeros.
\<close>

definition pad_block :: "string \<Rightarrow> string" where
  "pad_block s = s @ replicate ((length s + 95) div 96 * 96 - length s) (CHR ''0'')"

text \<open>The bits of block \<open>k\<close> of a bit string for blocks of \<open>S\<close> bytes.\<close>

definition block_bits_of :: "string \<Rightarrow> nat \<Rightarrow> nat \<Rightarrow> string" where
  "block_bits_of bits S k = take (S * 8) (drop (k * S * 8) bits)"

text \<open>
  Encoding a file to its CSV rows and decoding the rows with the same primers: the
  bytes written to the output file, if it is written.
\<close>

definition round_trip ::
  "rng \<Rightarrow> byte list \<Rightarrow> string \<Rightarrow> string \<Rightarrow> nat \<Rightarrow> error + byte list option" where
  "round_trip g B forward_primer reverse_primer block_size_bytes =
     (case encode_file_to_dna g B (Some forward_primer) (Some reverse_primer) False 0
             block_size_bytes of
        Inl e \<Rightarrow> Inl e
      | Inr (rows, summary, g') \<Rightarrow>
          (case decode_oligos_from_csv rows forward_primer reverse_primer True of
             Inl e \<Rightarrow> Inl e
           | Inr (st, written) \<Rightarrow> Inr written))"

section \<open>The symbol codec\<close>

lemma BIT_TO_BASE_Some:
  "BIT_TO_BASE b = Some syns \<Longrightarrow>
     (b = CHR ''0'' \<and> syns = ''AC'') \<or> (b = CHR ''1'' \<and> syns = ''GT'')"
  by (auto simp: BIT_TO_BASE_def split: if_splits)

lemma random_choice_mem:
  "random_choice g xs = Inr (x, g1) \<Longrightarrow> x \<in> set xs \<and> g1 = (\<lambda>n. g (Suc n))"
  by (auto simp: random_choice_def split: if_splits)

lemma random_choice_ok:
  "xs \<noteq> [] \<Longrightarrow> \<exists>x. random_choice g xs = Inr (x, (\<lambda>n. g (Suc n))) \<and> x \<in> set xs"
  by (simp add: random_choice_def)

lemma avoid_homopolymer_class:
  "avoid_homopolymer lb c = Inr base \<Longrightarrow> BASE_TO_BIT base = BASE_TO_BIT c"
  by (auto simp: avoid_homopolymer_def synonyms_def BASE_TO_BIT_def split: if_splits option.splits)

lemma avoid_homopolymer_ok:
  "c \<in> {CHR ''A'', CHR ''C'', CHR ''G'', CHR ''T''} \<Longrightarrow> \<exists>base. avoid_homopolymer lb c = Inr base"
  by (auto simp: avoid_homopolymer_def synonyms_def)

lemma chosen_class:
  "BIT_TO_BASE b = Some syns \<Longrightarrow> x \<in> set syns \<Longrightarrow> BASE_TO_BIT x = Some b"
  by (auto simp: BASE_TO_BIT_def dest!: BIT_TO_BASE_Some)

lemma encode_Cons_Inr:
  assumes "encode_bits_to_dna g (b # bits) lb = Inr (dna, g')"
  obtains syns chosen g1 base rest where
    "BIT_TO_BASE b = Some syns" 
    "random_choice g syns = Inr (chosen, g1)"
    "avoid_homopolymer lb chosen = Inr base" 
    "encode_bits_to_dna g1 bits
          (if length (lb @ [base]) > HOMOPOLYMER_LIMIT then tl (lb @ [base]) else lb @ [base])
        = Inr (rest, g')"
    "dna = base # rest"
proof (cases "BIT_TO_BASE b")
  case None
  with assms show ?thesis by simp
next
  case (Some syns)
  note s = this
  show ?thesis
  proof (cases "random_choice g syns")
    case (Inl e)
    with assms s show ?thesis by simp
  next
    case (Inr p)
    obtain chosen g1 where p: "p = (chosen, g1)" by (cases p)
    note c = Inr[unfolded p]
    show ?thesis
    proof (cases "avoid_homopolymer lb chosen")
      case (Inl e)
      with assms s c show ?thesis by simp
    next
      case (Inr base)
      note a = this
      let ?w = "(if length (lb @ [base]) > HOMOPOLYMER_LIMIT then tl (lb @ [base]) else lb @ [base])"
      show ?thesis
      proof (cases "encode_bits_to_dna g1 bits ?w")
        case (Inl e)
        with assms s c a show ?thesis by (simp add: Let_def)
      next
        case (Inr q)
        obtain rest g2 where q: "q = (rest, g2)" by (cases q)
        from assms s c a Inr q have "dna = base # rest" "g2 = g'" by (simp_all add: Let_def)
        with that[OF s c a] Inr q show ?thesis by simp
      qed
    qed
  qed
qed

lemma decode_encode:
  "encode_bits_to_dna g bits lb = Inr (dna, g') \<Longrightarrow> decode_dna_to_bits dna = Inr bits"
proof (induction bits arbitrary: g lb dna g')
  case Nil
  then show ?case by simp
next
  case (Cons b bits)
  from Cons.prems show ?case
  proof (rule encode_Cons_Inr)
    fix syns chosen g1 base rest
    assume s: "BIT_TO_BASE b = Some syns" and
    c: "random_choice g syns = Inr (chosen, g1)" and
    a: "avoid_homopolymer lb chosen = Inr base" and
    r: "encode_bits_to_dna g1 bits
          (if length (lb @ [base]) > HOMOPOLYMER_LIMIT then tl (lb @ [base]) else lb @ [base])
        = Inr (rest, g')" and
    d: "dna = base # rest"
    have "BASE_TO_BIT base = Some b"
      using avoid_homopolymer_class[OF a] chosen_class[OF s] random_choice_mem[OF c] by simp
    moreover have "decode_dna_to_bits rest = Inr bits"
      using Cons.IH[OF r] .
    ultimately show ?case by (simp add: d)
  qed
qed

lemma BIT_TO_BASE_ok:
  "b = CHR ''0'' \<or> b = CHR ''1'' \<Longrightarrow>
   \<exists>syns. BIT_TO_BASE b = Some syns \<and> syns \<noteq> [] \<and> set syns \<subseteq> {CHR ''A'', CHR ''C'', CHR ''G'', CHR ''T''}"
  by (auto simp: BIT_TO_BASE_def)

lemma encode_step_ok:
  assumes s: "BIT_TO_BASE b = Some syns"
    and c: "random_choice g syns = Inr (chosen, g1)"
    and a: "avoid_homopolymer lb chosen = Inr base"
    and r: "encode_bits_to_dna g1 bits
          (if length (lb @ [base]) > HOMOPOLYMER_LIMIT then tl (lb @ [base]) else lb @ [base])
        = Inr (rest, g')"
  shows "encode_bits_to_dna g (b # bits) lb = Inr (base # rest, g')"
  by (simp only: encode_bits_to_dna.simps s c a r Let_def option.case sum.case prod.case)

lemma encode_total:
  "set bits \<subseteq> {CHR ''0'', CHR ''1''} \<Longrightarrow> \<exists>dna g'. encode_bits_to_dna g bits lb = Inr (dna, g')"
proof (induction bits arbitrary: g lb)
  case Nil
  then show ?case by simp
next
  case (Cons b bits)
  from Cons.prems have "b = CHR ''0'' \<or> b = CHR ''1''" by simp
  from BIT_TO_BASE_ok[OF this] obtain syns where s: "BIT_TO_BASE b = Some syns" and ne: "syns \<noteq> []"
     and sub: "set syns \<subseteq> {CHR ''A'', CHR ''C'', CHR ''G'', CHR ''T''}"
    by blast
  obtain chosen where c: "random_choice g syns = Inr (chosen, (\<lambda>n. g (Suc n)))" and m: "chosen \<in> set syns"
    using random_choice_ok[OF ne] by blast
  from sub m have "chosen \<in> {CHR ''A'', CHR ''C'', CHR ''G'', CHR ''T''}" by (rule subsetD)
  from avoid_homopolymer_ok[OF this] obtain base where a: "avoid_homopolymer lb chosen = Inr base"
    by blast
  from Cons.prems have "set bits \<subseteq> {CHR ''0'', CHR ''1''}" by simp
  from Cons.IH[OF this] obtain rest g' where
    r: "encode_bits_to_dna (\<lambda>n. g (Suc n)) bits
          (if length (lb @ [base]) > HOMOPOLYMER_LIMIT then tl (lb @ [base]) else lb @ [base])
        = Inr (rest, g')" by blast
  from encode_step_ok[OF s c a r] show ?case by blast
qed

subsection \<open>Homopolymer runs within one encoded field\<close>

lemma no_run4_tl: "no_run4 (x # xs) \<Longrightarrow> no_run4 xs"
  by (induction "x # xs" rule: no_run4.induct) auto

lemma no_run4_suffix: "no_run4 (xs @ ys) \<Longrightarrow> no_run4 ys"
  by (induction xs) (auto dest: no_run4_tl)

lemma synonyms_neq: "synonyms c = Some s \<Longrightarrow> s \<noteq> c"
  by (auto simp: synonyms_def split: if_splits)

lemma avoid_not_run:
  assumes "avoid_homopolymer lb c = Inr base" and "last_slice 3 lb = [x, y, z]"
  shows "\<not> (x = base \<and> y = base \<and> z = base)"
proof -
  have len: "length lb \<ge> 3"
    using assms(2) by (cases "length lb \<ge> 3") (auto simp: last_slice_def)
  show ?thesis
  proof (cases "x = c \<and> y = c \<and> z = c")
    case True
    with assms len obtain s where "synonyms c = Some s" "base = s"
      by (auto simp: avoid_homopolymer_def HOMOPOLYMER_LIMIT_def split: option.splits)
    with synonyms_neq True show ?thesis by blast
  next
    case False
    with assms len have "base = c"
      by (auto simp: avoid_homopolymer_def HOMOPOLYMER_LIMIT_def split: option.splits)
    with False show ?thesis by blast
  qed
qed

lemma last_slice_tl: "length xs > n \<Longrightarrow> last_slice n (tl xs) = last_slice n xs"
proof -
  assume "length xs > n"
  then have "length xs - n = Suc (length xs - 1 - n)" by arith
  then show ?thesis by (simp add: last_slice_def drop_Suc)
qed

lemma last_slice_window:
  "last_slice 3 (if length (lb @ [base]) > HOMOPOLYMER_LIMIT then tl (lb @ [base]) else lb @ [base])
   = last_slice 3 (lb @ [base])"
  by (simp add: HOMOPOLYMER_LIMIT_def last_slice_tl del: tl_append2)

lemma last_slice_snoc:
  "last_slice 3 (lb @ [base]) =
     (if length (last_slice 3 lb) = 3 then tl (last_slice 3 lb) else last_slice 3 lb) @ [base]"
proof (cases "length lb \<ge> 3")
  case True
  then have "Suc (length lb - 3) = length lb - 2" by arith
  then have "tl (drop (length lb - 3) lb) = drop (length lb - 2) lb"
    by (metis drop_Suc tl_drop)
  with True show ?thesis by (simp add: last_slice_def)
next
  case False
  then show ?thesis by (simp add: last_slice_def)
qed

lemma encode_no_run4_window:
  "encode_bits_to_dna g bits lb = Inr (dna, g') \<Longrightarrow> no_run4 (last_slice 3 lb @ dna)"
proof (induction bits arbitrary: g lb dna g')
  case Nil
  have "length (last_slice 3 lb) \<le> 3" by (simp add: last_slice_def)
  moreover have "\<And>xs. length xs \<le> 3 \<Longrightarrow> no_run4 xs"
    subgoal for xs by (cases xs rule: no_run4.cases) auto
    done
  ultimately show ?case using Nil by simp
next
  case (Cons b bits)
  from Cons.prems show ?case
  proof (rule encode_Cons_Inr)
    fix syns chosen g1 base rest
    assume a: "avoid_homopolymer lb chosen = Inr base" and
    r: "encode_bits_to_dna g1 bits
          (if length (lb @ [base]) > HOMOPOLYMER_LIMIT then tl (lb @ [base]) else lb @ [base])
        = Inr (rest, g')" and
    d: "dna = base # rest"
    let ?L = "last_slice 3 lb"
    have ih: "no_run4 ((if length ?L = 3 then tl ?L else ?L) @ [base] @ rest)"
      using Cons.IH[OF r] by (simp only: last_slice_window last_slice_snoc append_assoc)
    have le: "length ?L \<le> 3" by (simp add: last_slice_def)
    show ?case
    proof (cases "length ?L = 3")
      case True
      then obtain x y z where L: "?L = [x, y, z]"
        by (cases ?L rule: no_run4.cases) auto
      from avoid_not_run[OF a L] ih L show ?thesis by (auto simp: d)
    next
      case False
      with ih show ?thesis by (simp add: d)
    qed
  qed
qed

lemma encode_no_run4:
  "encode_bits_to_dna g bits lb = Inr (dna, g') \<Longrightarrow> no_run4 dna"
  by (rule no_run4_suffix[OF encode_no_run4_window])

section \<open>Binary strings, integers and bytes\<close>

lemma foldl_binary_acc:
  "foldl (\<lambda>acc c. 2 * acc + bit_value c) a s
   = a * 2 ^ length s + foldl (\<lambda>acc c. 2 * acc + bit_value c) 0 s"
proof (induction s arbitrary: a)
  case Nil
  then show ?case by simp
next
  case (Cons c s)
  have "foldl (\<lambda>acc c. 2 * acc + bit_value c) a (c # s)
        = (2 * a + bit_value c) * 2 ^ length s + foldl (\<lambda>acc c. 2 * acc + bit_value c) 0 s"
    using Cons.IH[of "2 * a + bit_value c"] by simp
  moreover have "foldl (\<lambda>acc c. 2 * acc + bit_value c) 0 (c # s)
        = bit_value c * 2 ^ length s + foldl (\<lambda>acc c. 2 * acc + bit_value c) 0 s"
    using Cons.IH[of "bit_value c"] by simp
  ultimately show ?case by (simp add: algebra_simps)
qed

lemma binary_value_Nil [simp]: "binary_value [] = 0"
  by (simp add: binary_value_def)

lemma binary_value_Cons: "binary_value (c # s) = bit_value c * 2 ^ length s + binary_value s"
  unfolding binary_value_def
  by (simp add: foldl_binary_acc[of "bit_value c"])

lemma binary_value_append:
  "binary_value (xs @ ys) = binary_value xs * 2 ^ length ys + binary_value ys"
  by (induction xs) (simp_all add: binary_value_Cons algebra_simps power_add)

lemma bit_value_le: "bit_value c \<le> 1"
  by (simp add: bit_value_def)

lemma binary_value_lt: "binary_value s < 2 ^ length s"
proof (induction s)
  case Nil
  then show ?case by simp
next
  case (Cons c s)
  have "bit_value c * 2 ^ length s \<le> 1 * 2 ^ length s"
    using bit_value_le[of c] by (intro mult_le_mono1)
  then have h: "bit_value c * 2 ^ length s \<le> 2 ^ length s" by simp
  have "binary_value (c # s) < 2 ^ length s + 2 ^ length s"
    unfolding binary_value_Cons using h Cons.IH by arith
  then show ?case by simp
qed

lemma binary_value_zeros [simp]: "binary_value (replicate n (CHR ''0'')) = 0"
  by (induction n) (simp_all add: binary_value_Cons bit_value_def)

lemma is_bit_bin_digit [simp]: "is_bit (bin_digit d)"
  by (simp add: is_bit_def bin_digit_def)

lemma bit_value_bin_digit: "d < 2 \<Longrightarrow> bit_value (bin_digit d) = d"
  by (auto simp: bit_value_def bin_digit_def)

lemma bin_str_bits: "list_all is_bit (bin_str n)"
  by (induction n rule: bin_str.induct) (subst bin_str.simps, simp)

lemma bin_str_nonempty [simp]: "bin_str n \<noteq> []"
  by (subst bin_str.simps) simp

lemma binary_value_bin_str: "binary_value (bin_str n) = n"
proof (induction n rule: bin_str.induct)
  case (1 n)
  show ?case
  proof (cases "n < 2")
    case True
    then show ?thesis
      by (subst bin_str.simps) (simp add: binary_value_Cons bit_value_bin_digit)
  next
    case False
    with 1 have "binary_value (bin_str (n div 2)) = n div 2" by simp
    with False show ?thesis
      by (subst bin_str.simps) (simp add: binary_value_append binary_value_Cons bit_value_bin_digit)
  qed
qed

lemma length_bin_str: "0 < w \<Longrightarrow> n < 2 ^ w \<Longrightarrow> length (bin_str n) \<le> w"
proof (induction n arbitrary: w rule: bin_str.induct)
  case (1 n)
  show ?case
  proof (cases "n < 2")
    case True
    with 1 show ?thesis by (subst bin_str.simps) simp
  next
    case False
    with "1.prems" obtain v where w: "w = Suc v" by (cases w) auto
    with False "1.prems" have v: "0 < v" by (cases v) auto
    from "1.prems" w have "n div 2 < 2 ^ v" by (simp add: less_mult_imp_div_less mult.commute)
    from "1.IH"[OF False v this] w False show ?thesis
      by (subst bin_str.simps) simp
  qed
qed

lemma zeros_bits [simp]: "list_all is_bit (replicate k (CHR ''0''))"
  by (induction k) (simp_all add: is_bit_def)

lemma format_0b_bits [simp]: "list_all is_bit (format_0b w n)"
  by (simp add: format_0b_def bin_str_bits)

lemma format_0b_nonempty [simp]: "format_0b w n \<noteq> []"
  by (simp add: format_0b_def)

lemma binary_value_format_0b [simp]: "binary_value (format_0b w n) = n"
  by (simp add: format_0b_def binary_value_append binary_value_bin_str)

lemma length_format_0b: "0 < w \<Longrightarrow> n < 2 ^ w \<Longrightarrow> length (format_0b w n) = w"
  using length_bin_str[of w n] by (simp add: format_0b_def)

lemma int_base2_format_0b [simp]: "int_base2 (format_0b w n) = Inr n"
  by (simp add: int_base2_def)

lemma int_base2_bits:
  "list_all is_bit s \<Longrightarrow> s \<noteq> [] \<Longrightarrow> int_base2 s = Inr (binary_value s)"
  by (simp add: int_base2_def)

lemma length_big_endian [simp]: "length (big_endian n v) = n"
  by (induction n arbitrary: v) simp_all

lemma to_bytes_binary_value:
  "to_bytes (binary_value s) ((length s + 7) div 8)
   = Inr (big_endian ((length s + 7) div 8) (binary_value s))"
proof -
  have "length s \<le> 8 * ((length s + 7) div 8)" by arith
  then have "(2::nat) ^ length s \<le> 2 ^ (8 * ((length s + 7) div 8))"
    by (rule power_increasing) simp
  also have "\<dots> = 256 ^ ((length s + 7) div 8)"
    by (simp add: power_mult)
  finally show ?thesis
    using binary_value_lt[of s] by (simp add: to_bytes_def)
qed

lemma calculate_crc32_checksum_bits:
  assumes "list_all is_bit s" and "s \<noteq> []"
  shows "calculate_crc32_checksum s =
           Inr (format_0b 32 (unat (zlib_crc32 (big_endian ((length s + 7) div 8) (binary_value s)))))"
  by (simp add: calculate_crc32_checksum_def int_base2_bits[OF assms] to_bytes_binary_value)

lemma verify_crc32_checksum_bits:
  assumes "list_all is_bit s" and "s \<noteq> []"
  shows "verify_crc32_checksum s c =
           Inr (format_0b 32 (unat (zlib_crc32 (big_endian ((length s + 7) div 8) (binary_value s)))) = c)"
  by (simp add: verify_crc32_checksum_def int_base2_bits[OF assms] to_bytes_binary_value Let_def)

lemma verify_iff_calculate:
  assumes "list_all is_bit s" and "s \<noteq> []"
  shows "verify_crc32_checksum s c = Inr (calculate_crc32_checksum s = Inr c)"
  by (simp add: verify_crc32_checksum_bits[OF assms] calculate_crc32_checksum_bits[OF assms])

lemma length_crc32_bits: "length (format_0b 32 (unat (w :: 32 word))) = 32"
proof -
  have "unat w < 2 ^ 32" using unsigned_less[of w] by simp
  then show ?thesis by (simp add: length_format_0b)
qed

lemma decode_dna_to_bits_bits:
  "decode_dna_to_bits dna = Inr bits \<Longrightarrow> list_all is_bit bits \<and> length bits = length dna"
proof (induction dna arbitrary: bits)
  case Nil
  then show ?case by simp
next
  case (Cons base rest)
  from Cons.prems obtain b bs where
    b: "BASE_TO_BIT base = Some b" and r: "decode_dna_to_bits rest = Inr bs" and e: "bits = b # bs"
    by (auto split: option.splits sum.splits)
  from b have "is_bit b" by (auto simp: BASE_TO_BIT_def is_bit_def split: if_splits)
  with Cons.IH[OF r] e show ?case by simp
qed

section \<open>CRC-32 detects a changed byte\<close>

lemma crc32_poly_top: "bit crc32_poly 31"
  by (simp add: crc32_poly_def)

lemma crc32_shift_top: "bit (crc32_shift c) 31 = bit c 0"
  using crc32_poly_top
  by (auto simp: crc32_shift_def bit_xor_iff bit_drop_bit_eq dest: bit_imp_le_length)

lemma word_xor_cancel_right: "(a :: 'a::len word) XOR c = b XOR c \<Longrightarrow> a = b"
proof -
  assume "a XOR c = b XOR c"
  then have "(a XOR c) XOR c = (b XOR c) XOR c" by simp
  then show "a = b" by (simp add: xor.assoc)
qed

lemma word_xor_cancel_left: "(c :: 'a::len word) XOR a = c XOR b \<Longrightarrow> a = b"
  using word_xor_cancel_right[of a c b] by (simp add: xor.commute)

lemma crc32_shift_inj:
  assumes "crc32_shift c = crc32_shift d"
  shows "c = d"
proof -
  from assms have b0: "bit c 0 = bit d 0"
    using crc32_shift_top[of c] crc32_shift_top[of d] by simp
  with assms have dr: "drop_bit 1 c = drop_bit 1 d"
    by (auto simp: crc32_shift_def split: if_splits dest: word_xor_cancel_right)
  show ?thesis
  proof (rule bit_eqI)
    fix n
    show "bit c n = bit d n"
    proof (cases n)
      case 0
      with b0 show ?thesis by simp
    next
      case (Suc m)
      have "bit c (Suc m) = bit (drop_bit 1 c) m" by (simp add: bit_drop_bit_eq)
      also have "\<dots> = bit (drop_bit 1 d) m" by (simp only: dr)
      also have "\<dots> = bit d (Suc m)" by (simp add: bit_drop_bit_eq)
      finally show ?thesis by (simp add: Suc)
    qed
  qed
qed

lemma crc32_shift_funpow_inj: "(crc32_shift ^^ k) c = (crc32_shift ^^ k) d \<Longrightarrow> c = d"
  by (induction k) (auto dest: crc32_shift_inj)

lemma crc32_byte_inj_state: "crc32_byte c b = crc32_byte d b \<Longrightarrow> c = d"
  by (auto simp: crc32_byte_def dest!: crc32_shift_funpow_inj word_xor_cancel_right)

lemma ucast_byte_inj:
  assumes "(ucast (a :: byte) :: 32 word) = ucast b"
  shows "a = b"
proof (rule bit_word_eqI)
  fix n assume n: "n < LENGTH(8)"
  from assms have "bit (ucast a :: 32 word) n = bit (ucast b :: 32 word) n" by simp
  with n show "bit a n = bit b n" by (simp add: bit_ucast_iff)
qed

lemma crc32_byte_inj_byte: "crc32_byte c a = crc32_byte c b \<Longrightarrow> a = b"
  by (auto simp: crc32_byte_def dest!: crc32_shift_funpow_inj word_xor_cancel_left ucast_byte_inj)

lemma foldl_crc32_byte_inj:
  "foldl crc32_byte c bs = foldl crc32_byte d bs \<Longrightarrow> c = d"
  by (induction bs arbitrary: c d) (auto dest: crc32_byte_inj_state)

lemma zlib_crc32_changed_byte:
  assumes "k < length bs" and "b \<noteq> bs ! k"
  shows "zlib_crc32 (bs[k := b]) \<noteq> zlib_crc32 bs"
proof
  assume eq: "zlib_crc32 (bs[k := b]) = zlib_crc32 bs"
  let ?pre = "take k bs" and ?post = "drop (Suc k) bs"
  have bs: "bs = ?pre @ bs ! k # ?post"
    using assms(1) by (simp add: id_take_nth_drop)
  have upd: "bs[k := b] = ?pre @ b # ?post"
    using assms(1) by (simp add: upd_conv_take_nth_drop)
  let ?c = "foldl crc32_byte 0xFFFFFFFF ?pre"
  from eq have "foldl crc32_byte 0xFFFFFFFF (bs[k := b]) = foldl crc32_byte 0xFFFFFFFF bs"
    unfolding zlib_crc32_def by (rule word_xor_cancel_right)
  then have "foldl crc32_byte 0xFFFFFFFF (?pre @ b # ?post)
              = foldl crc32_byte 0xFFFFFFFF (?pre @ bs ! k # ?post)"
    using upd bs by simp
  then have "foldl crc32_byte (crc32_byte ?c b) ?post = foldl crc32_byte (crc32_byte ?c (bs ! k)) ?post"
    by simp
  then have "crc32_byte ?c b = crc32_byte ?c (bs ! k)" by (rule foldl_crc32_byte_inj)
  then have "b = bs ! k" by (rule crc32_byte_inj_byte)
  with assms(2) show False by simp
qed
text \<open>The standard check value of CRC-32: the checksum of the ASCII string 123456789.\<close>

lemma zlib_crc32_check_value:
  "zlib_crc32 [0x31, 0x32, 0x33, 0x34, 0x35, 0x36, 0x37, 0x38, 0x39] = 0xCBF43926"
proof -
  have s0: "crc32_byte 0xFFFFFFFF 0x31 = 0x7C231048" by code_simp
  have s1: "crc32_byte 0x7C231048 0x32 = 0xB0ACBB32" by code_simp
  have s2: "crc32_byte 0xB0ACBB32 0x33 = 0x77B79C2D" by code_simp
  have s3: "crc32_byte 0x77B79C2D 0x34 = 0x641C1F5C" by code_simp
  have s4: "crc32_byte 0x641C1F5C 0x35 = 0x340AC5E3" by code_simp
  have s5: "crc32_byte 0x340AC5E3 0x36 = 0xF68D2C9E" by code_simp
  have s6: "crc32_byte 0xF68D2C9E 0x37 = 0xAFFC9660" by code_simp
  have s7: "crc32_byte 0xAFFC9660 0x38 = 0x651F2550" by code_simp
  have s8: "crc32_byte 0x651F2550 0x39 = 0x340BC6D9" by code_simp
  have x: "(0x340BC6D9 :: 32 word) XOR 0xFFFFFFFF = 0xCBF43926" by simp
  show ?thesis
    unfolding zlib_crc32_def foldl.simps s0 s1 s2 s3 s4 s5 s6 s7 s8 by (rule x)
qed

section \<open>A flipped bit changes the checksum\<close>

lemma big_endian_Cons:
  assumes "length rest = 8 * n"
  shows "big_endian (Suc n) (binary_value (c @ rest))
         = word_of_nat (binary_value c) # big_endian n (binary_value rest)"
proof -
  have p: "(256::nat) ^ n = 2 ^ length rest"
    using assms by (simp add: power_mult)
  have lt: "binary_value rest < 2 ^ length rest" by (rule binary_value_lt)
  have "binary_value (c @ rest) div 2 ^ length rest = binary_value c"
    using lt by (simp add: binary_value_append)
  moreover have "binary_value (c @ rest) mod 2 ^ length rest = binary_value rest"
    using lt by (simp add: binary_value_append)
  ultimately show ?thesis by (simp add: p)
qed

lemma binary_value_inj:
  assumes "length xs = length ys" and "list_all is_bit xs" and "list_all is_bit ys"
    and "binary_value xs = binary_value ys"
  shows "xs = ys"
  using assms
proof (induction xs ys rule: list_induct2)
  case Nil
  then show ?case by simp
next
  case (Cons x xs y ys)
  let ?p = "(2::nat) ^ length xs"
  have lx: "binary_value xs < ?p" by (rule binary_value_lt)
  have ly: "binary_value ys < ?p" using binary_value_lt[of ys] Cons.hyps by simp
  from Cons.prems(3) have e: "bit_value x * ?p + binary_value xs = bit_value y * ?p + binary_value ys"
    using Cons.hyps by (simp add: binary_value_Cons)
  have "(bit_value x * ?p + binary_value xs) div ?p = bit_value x" using lx by simp
  moreover have "(bit_value y * ?p + binary_value ys) div ?p = bit_value y" using ly by simp
  ultimately have bv: "bit_value x = bit_value y" using e by simp
  with e have "binary_value xs = binary_value ys" by simp
  moreover from bv Cons.prems have "x = y"
    by (auto simp: bit_value_def is_bit_def split: if_splits)
  ultimately show ?case using Cons by simp
qed

lemma flip_bit_at_length [simp]: "length (flip_bit_at i s) = length s"
  by (simp add: flip_bit_at_def)

lemma flip_bit_at_bits: "list_all is_bit s \<Longrightarrow> list_all is_bit (flip_bit_at i s)"
  by (auto simp: flip_bit_at_def list_all_iff is_bit_def dest!: set_update_subset_insert[THEN subsetD])

lemma flip_bit_at_neq: "i < length s \<Longrightarrow> flip_bit_at i s \<noteq> s"
proof
  assume i: "i < length s" and "flip_bit_at i s = s"
  then have "flip_bit_at i s ! i = s ! i" by simp
  with i show False by (simp add: flip_bit_at_def split: if_splits)
qed

lemma flip_bit_at_append:
  "flip_bit_at i (xs @ ys) =
     (if i < length xs then flip_bit_at i xs @ ys else xs @ flip_bit_at (i - length xs) ys)"
  by (simp add: flip_bit_at_def list_update_append nth_append)

lemma byte_of_nat_inj:
  assumes "x < 256" and "y < 256" and "(word_of_nat x :: byte) = word_of_nat y"
  shows "x = y"
proof -
  from assms(3) have "unat (word_of_nat x :: byte) = unat (word_of_nat y :: byte)" by simp
  with assms(1,2) show ?thesis by (simp add: unat_of_nat)
qed

lemma flip_changes_one_byte:
  assumes "list_all is_bit s" and "length s = 8 * n" and "i < length s"
  shows "\<exists>b. b \<noteq> big_endian n (binary_value s) ! (i div 8)
           \<and> big_endian n (binary_value (flip_bit_at i s))
               = (big_endian n (binary_value s))[i div 8 := b]"
  using assms
proof (induction n arbitrary: s i)
  case 0
  then show ?case by simp
next
  case (Suc n)
  let ?c = "take 8 s" and ?r = "drop 8 s"
  have s: "s = ?c @ ?r" by simp
  have lc: "length ?c = 8" and lr: "length ?r = 8 * n" using Suc.prems(2) by simp_all
  have bc: "list_all is_bit ?c" and br: "list_all is_bit ?r"
    using Suc.prems(1) by (auto simp: list_all_iff dest: in_set_takeD in_set_dropD)
  have old: "big_endian (Suc n) (binary_value s)
             = word_of_nat (binary_value ?c) # big_endian n (binary_value ?r)"
    using big_endian_Cons[OF lr, of ?c] by simp
  show ?case
  proof (cases "i < 8")
    case True
    then have f: "flip_bit_at i s = flip_bit_at i ?c @ ?r"
      using flip_bit_at_append[of i ?c ?r] lc by simp
    have new: "big_endian (Suc n) (binary_value (flip_bit_at i s))
             = word_of_nat (binary_value (flip_bit_at i ?c)) # big_endian n (binary_value ?r)"
      unfolding f by (rule big_endian_Cons[OF lr])
    have ne: "flip_bit_at i ?c \<noteq> ?c" using True lc by (intro flip_bit_at_neq) simp
    have "binary_value (flip_bit_at i ?c) \<noteq> binary_value ?c"
      using binary_value_inj[of "flip_bit_at i ?c" ?c] ne bc flip_bit_at_bits[OF bc] by auto
    moreover have "binary_value (flip_bit_at i ?c) < 256" "binary_value ?c < 256"
      using binary_value_lt[of "flip_bit_at i ?c"] binary_value_lt[of ?c] lc by simp_all
    ultimately have "(word_of_nat (binary_value (flip_bit_at i ?c)) :: byte)
                     \<noteq> word_of_nat (binary_value ?c)"
      using byte_of_nat_inj by blast
    moreover from True have "i div 8 = 0" by simp
    ultimately show ?thesis unfolding old new by simp
  next
    case False
    then have f: "flip_bit_at i s = ?c @ flip_bit_at (i - 8) ?r"
      using flip_bit_at_append[of i ?c ?r] lc by simp
    have new: "big_endian (Suc n) (binary_value (flip_bit_at i s))
             = word_of_nat (binary_value ?c) # big_endian n (binary_value (flip_bit_at (i - 8) ?r))"
      unfolding f using lr by (intro big_endian_Cons) simp
    from False Suc.prems(3) have "i - 8 < length ?r" by simp
    from Suc.IH[OF br lr this] obtain b where
      b: "b \<noteq> big_endian n (binary_value ?r) ! ((i - 8) div 8)"
         "big_endian n (binary_value (flip_bit_at (i - 8) ?r))
          = (big_endian n (binary_value ?r))[(i - 8) div 8 := b]" by blast
    from False have d: "i div 8 = Suc ((i - 8) div 8)" by arith
    from b show ?thesis unfolding old new d by auto
  qed
qed

lemma crc32_bits_inj:
  "format_0b 32 (unat (v :: 32 word)) = format_0b 32 (unat w) \<Longrightarrow> v = w"
proof -
  assume "format_0b 32 (unat v) = format_0b 32 (unat w)"
  then have "binary_value (format_0b 32 (unat v)) = binary_value (format_0b 32 (unat w))"
    by simp
  then show "v = w" by (simp add: word_unat_eq_iff)
qed

lemma checksum_detects_flip:
  assumes "list_all is_bit s" and "length s = 8 * n" and "i < length s"
  shows "calculate_crc32_checksum (flip_bit_at i s) \<noteq> calculate_crc32_checksum s"
proof -
  from assms have ne: "s \<noteq> []" by auto
  have n: "(length s + 7) div 8 = n" using assms(2) by simp
  from flip_changes_one_byte[OF assms] obtain b where
    b: "b \<noteq> big_endian n (binary_value s) ! (i div 8)"
       "big_endian n (binary_value (flip_bit_at i s)) = (big_endian n (binary_value s))[i div 8 := b]"
    by blast
  have k: "i div 8 < length (big_endian n (binary_value s))"
    using assms(2,3) by simp
  have "zlib_crc32 (big_endian n (binary_value (flip_bit_at i s)))
        \<noteq> zlib_crc32 (big_endian n (binary_value s))"
    unfolding b(2) by (rule zlib_crc32_changed_byte[OF k b(1)])
  then have "format_0b 32 (unat (zlib_crc32 (big_endian n (binary_value (flip_bit_at i s)))))
        \<noteq> format_0b 32 (unat (zlib_crc32 (big_endian n (binary_value s))))"
    using crc32_bits_inj by blast
  moreover have "calculate_crc32_checksum s
        = Inr (format_0b 32 (unat (zlib_crc32 (big_endian n (binary_value s)))))"
    using calculate_crc32_checksum_bits[OF assms(1) ne] n by simp
  moreover have "flip_bit_at i s \<noteq> []" using ne by (simp add: flip_bit_at_def)
  then have "calculate_crc32_checksum (flip_bit_at i s)
        = Inr (format_0b 32 (unat (zlib_crc32 (big_endian n (binary_value (flip_bit_at i s))))))"
    using calculate_crc32_checksum_bits[OF flip_bit_at_bits[OF assms(1)], of i] n by simp
  ultimately show ?thesis by simp
qed

section \<open>Batch decoding\<close>

subsection \<open>Records that are too short\<close>

lemma decode_row_short:
  assumes "length (core_sequence (strip (row_oligo r)) fp rp) < 19 + 96"
  shows "decode_row fp rp st (n, r) = add_error (ExtractFailed n) (note_metadata r st)"
proof -
  from assms have "extract_oligo_parts (strip (row_oligo r)) fp rp = None"
    by (simp add: extract_oligo_parts_def Let_def)
  then show ?thesis
    by (simp add: decode_row_def Let_def)
qed

lemma same_segments_add_error [simp]:
  "same_segments (add_error e st) st' = same_segments st st'"
  "same_segments st (add_error e st') = same_segments st st'"
  by (simp_all add: same_segments_def add_error_def)

lemma same_segments_count:
  "same_segments st st' \<Longrightarrow> same_segments (count_valid st) (count_valid st')"
  "same_segments st st' \<Longrightarrow> same_segments (count_invalid st) (count_invalid st')"
  "same_segments st st' \<Longrightarrow> same_segments (count_missing st) (count_missing st')"
  by (simp_all add: same_segments_def count_valid_def count_invalid_def count_missing_def)

lemma same_segments_store:
  "same_segments st st' \<Longrightarrow>
   same_segments (store_segment n b a d st) (store_segment n' b a d st')"
  by (simp add: same_segments_def store_segment_def add_error_def split: sum.splits)

lemma same_segments_meta [simp]:
  "same_segments (note_metadata r st) st' = same_segments st st'"
  "same_segments st (note_metadata r st') = same_segments st st'"
  by (simp_all add: same_segments_def note_metadata_def Let_def)

lemma same_segments_refl [simp]: "same_segments st st"
  by (simp add: same_segments_def)

lemma decode_row_same_segments:
  assumes "same_segments st st'"
  shows "same_segments (decode_row fp rp st (n, r)) (decode_row fp rp st' (n', r))"
proof -
  have m: "same_segments (note_metadata r st) (note_metadata r st')"
    using assms by simp
  show ?thesis
    unfolding decode_row_def Let_def prod.case
    using assms
    by (auto split: option.splits sum.splits
          intro!: same_segments_store same_segments_count m)
qed

lemma foldl_decode_row_same_segments:
  assumes "same_segments st st'" and "length ns = length rows" and "length ns' = length rows"
  shows "same_segments (foldl (decode_row fp rp) st (zip ns rows))
                       (foldl (decode_row fp rp) st' (zip ns' rows))"
  using assms
proof (induction rows arbitrary: st st' ns ns')
  case Nil
  then show ?case by simp
next
  case (Cons r rows)
  from Cons.prems obtain n ms n' ms' where ns: "ns = n # ms" "ns' = n' # ms'"
    by (cases ns; cases ns') auto
  with Cons.prems have l: "length ms = length rows" "length ms' = length rows" by simp_all
  show ?case
    unfolding ns
    by (simp add: Cons.IH[OF decode_row_same_segments[OF Cons.prems(1)] l])
qed

lemma length_errors_decode_row:
  "length (errors (decode_row fp rp st (n, r))) - length (errors st)
   = length (errors (decode_row fp rp st' (n', r))) - length (errors st')
   \<and> length (errors st) \<le> length (errors (decode_row fp rp st (n, r)))"
  unfolding decode_row_def Let_def prod.case
  by (auto split: option.splits sum.splits
        simp: add_error_def store_segment_def count_valid_def count_invalid_def count_missing_def
              note_metadata_def Let_def)

lemma foldl_decode_row_errors:
  assumes "length ns = length rows" and "length ns' = length rows"
  shows "length (errors (foldl (decode_row fp rp) st (zip ns rows))) + length (errors st')
       = length (errors (foldl (decode_row fp rp) st' (zip ns' rows))) + length (errors st)"
  using assms
proof (induction rows arbitrary: st st' ns ns')
  case Nil
  then show ?case by simp
next
  case (Cons r rows)
  from Cons.prems obtain n ms n' ms' where ns: "ns = n # ms" "ns' = n' # ms'"
    by (cases ns; cases ns') auto
  with Cons.prems have l: "length ms = length rows" "length ms' = length rows" by simp_all
  let ?s = "decode_row fp rp st (n, r)" and ?s' = "decode_row fp rp st' (n', r)"
  from length_errors_decode_row[of fp rp st n r st' n']
       length_errors_decode_row[of fp rp st' n' r st n]
  have "length (errors ?s) + length (errors st') = length (errors ?s') + length (errors st)"
    by arith
  with Cons.IH[OF l, of ?s ?s'] show ?case
    unfolding ns by simp
qed

lemma upt_split_mid:
  "[a..<a + length (xs @ y # ys)] = [a..<a + length xs] @ (a + length xs) # [Suc (a + length xs)..<Suc (a + length xs) + length ys]"
proof -
  have "[a..<(a + length xs) + Suc (length ys)] = [a..<a + length xs] @ [a + length xs..<(a + length xs) + Suc (length ys)]"
    by (rule upt_add_eq_append) simp
  moreover have "[a + length xs..<(a + length xs) + Suc (length ys)]
        = (a + length xs) # [Suc (a + length xs)..<(a + length xs) + Suc (length ys)]"
    by (rule upt_conv_Cons) simp
  moreover have "a + length (xs @ y # ys) = (a + length xs) + Suc (length ys)" by simp
  moreover have "(a + length xs) + Suc (length ys) = Suc (a + length xs) + length ys" by simp
  ultimately show ?thesis by (simp only:)
qed

lemma upt_split_append:
  "[a..<a + length (xs @ ys)] = [a..<a + length xs] @ [a + length xs..<a + length xs + length ys]"
proof -
  have "[a..<(a + length xs) + length ys] = [a..<a + length xs] @ [a + length xs..<(a + length xs) + length ys]"
    by (rule upt_add_eq_append) simp
  moreover have "a + length (xs @ ys) = (a + length xs) + length ys" by simp
  ultimately show ?thesis by (simp only:)
qed

lemma decode_rows_split:
  "decode_rows fp rp (before @ r # after) =
     foldl (decode_row fp rp)
       (decode_row fp rp (decode_rows fp rp before) (2 + length before, r))
       (zip [Suc (2 + length before)..<Suc (2 + length before) + length after] after)"
  unfolding decode_rows_def upt_split_mid
  by (simp del: upt_Suc)

lemma decode_rows_append:
  "decode_rows fp rp (before @ after) =
     foldl (decode_row fp rp) (decode_rows fp rp before)
       (zip [2 + length before..<2 + length before + length after] after)"
  unfolding decode_rows_def upt_split_append
  by (simp del: upt_Suc)

subsection \<open>Classification of a decoded row\<close>

lemma extract_oligo_parts_lengths:
  "extract_oligo_parts oligo fp rp = Some (a, d, c) \<Longrightarrow> length a = 19 \<and> length d = 96"
  by (auto simp: extract_oligo_parts_def Let_def py_slice_def split: if_splits)

lemma decode_row_classified:
  assumes x: "extract_oligo_parts (strip (row_oligo r)) fp rp = Some (address_dna, data_dna, crc32_dna)"
    and a: "decode_dna_to_bits address_dna = Inr address_bits"
    and d: "decode_dna_to_bits data_dna = Inr data_bits"
  shows "decode_row fp rp st (n, r) =
     (if 32 \<le> length crc32_dna then
        (case decode_dna_to_bits (take 32 crc32_dna) of
           Inl e \<Rightarrow> add_error (ProcessingError n e) (note_metadata r st)
         | Inr crc32_bits \<Rightarrow>
             (if calculate_crc32_checksum data_bits = Inr crc32_bits
              then (count_valid (note_metadata r st))\<lparr> decoded_blocks :=
                      AList.update (row_block_index r, binary_value address_bits) data_bits
                        (decoded_blocks st) \<rparr>
              else add_error (ChecksumFailed n) (count_invalid (note_metadata r st))))
      else (count_missing (note_metadata r st))\<lparr> decoded_blocks :=
              AList.update (row_block_index r, binary_value address_bits) data_bits
                (decoded_blocks st) \<rparr>)"
proof -
  from extract_oligo_parts_lengths[OF x] decode_dna_to_bits_bits[OF a] decode_dna_to_bits_bits[OF d]
  have ab: "list_all is_bit address_bits" "address_bits \<noteq> []"
    and db: "list_all is_bit data_bits" "data_bits \<noteq> []" by auto
  have ia: "int_base2 address_bits = Inr (binary_value address_bits)"
    by (rule int_base2_bits[OF ab])
  have st: "\<And>s. store_segment n (row_block_index r) address_bits data_bits s
           = s\<lparr> decoded_blocks := AList.update (row_block_index r, binary_value address_bits)
                  data_bits (decoded_blocks s) \<rparr>"
    by (simp add: store_segment_def ia)
  have dm: "decoded_blocks (count_missing (note_metadata r st)) = decoded_blocks st"
           "decoded_blocks (count_valid (note_metadata r st)) = decoded_blocks st"
    by (simp_all add: count_missing_def count_valid_def note_metadata_def Let_def)
  have e: "crc32_dna \<noteq> [] \<and> 32 \<le> length crc32_dna \<longleftrightarrow> 32 \<le> length crc32_dna" by auto
  show ?thesis
    unfolding decode_row_def Let_def prod.case x option.case a d sum.case e st dm
      verify_iff_calculate[OF db]
    by (simp split: sum.splits)
qed
lemma strip_id:
  assumes "s \<noteq> [] \<Longrightarrow> \<not> is_space (hd s) \<and> \<not> is_space (last s)"
  shows "strip s = s"
proof (cases s)
  case Nil
  then show ?thesis by (simp add: strip_def)
next
  case (Cons c cs)
  with assms have h: "\<not> is_space (hd s)" and l: "\<not> is_space (last s)" by auto
  from h Cons have 1: "dropWhile is_space s = s" by simp
  from Cons have "rev s \<noteq> []" by simp
  moreover have "hd (rev s) = last s" by (rule hd_rev)
  with l have "\<not> is_space (hd (rev s))" by simp
  ultimately have 2: "dropWhile is_space (rev s) = rev s"
    by (cases "rev s") auto
  show ?thesis by (simp add: strip_def 1 2)
qed

lemma strip_blanks_example:
  "strip ([char_of (160::nat), CHR '' ''] @ ''ACGT'' @ [char_of (133::nat), CHR 0x0A]) = ''ACGT''"
  by (simp add: strip_def is_space_def)

lemma decode_replicate_A:
  "decode_dna_to_bits (replicate k (CHR ''A'')) = Inr (replicate k (CHR ''0''))"
  by (induction k) (simp_all add: BASE_TO_BIT_def)

lemma poly_a_extract:
  "extract_oligo_parts (strip (row_oligo poly_a_row)) [] []
   = Some (replicate 19 (CHR ''A''), replicate 96 (CHR ''A''), replicate 32 (CHR ''A''))"
proof -
  have "strip (replicate 147 (CHR ''A'')) = replicate 147 (CHR ''A'')"
    by (rule strip_id) (simp add: is_space_def)
  then show ?thesis
    by (simp add: poly_a_row_def extract_oligo_parts_def core_sequence_def py_slice_def Let_def)
qed

subsection \<open>Rows that reach no checksum class\<close>

lemma decode_row_rejected:
  assumes "extract_oligo_parts (strip (row_oligo r)) fp rp = None
           \<or> (\<exists>address_dna data_dna crc32_dna.
                 extract_oligo_parts (strip (row_oligo r)) fp rp
                   = Some (address_dna, data_dna, crc32_dna)
                 \<and> (isl (decode_dna_to_bits address_dna)
                    \<or> isl (decode_dna_to_bits data_dna)
                    \<or> 32 \<le> length crc32_dna \<and> isl (decode_dna_to_bits (take 32 crc32_dna))))"
  shows "\<exists>e. decode_row fp rp st (n, r) = add_error e (note_metadata r st)"
  using assms
proof (elim disjE exE conjE)
  assume "extract_oligo_parts (strip (row_oligo r)) fp rp = None"
  then have "decode_row fp rp st (n, r) = add_error (ExtractFailed n) (note_metadata r st)"
    by (simp add: decode_row_def Let_def)
  then show ?thesis by blast
next
  fix a d c
  assume x: "extract_oligo_parts (strip (row_oligo r)) fp rp = Some (a, d, c)"
    and "isl (decode_dna_to_bits a)"
  then obtain e where e: "decode_dna_to_bits a = Inl e" by (auto simp: isl_def)
  have "decode_row fp rp st (n, r) = add_error (ProcessingError n e) (note_metadata r st)"
    by (simp add: decode_row_def Let_def x e)
  then show ?thesis by blast
next
  fix a d c
  assume x: "extract_oligo_parts (strip (row_oligo r)) fp rp = Some (a, d, c)"
    and "isl (decode_dna_to_bits d)"
  then obtain e where e: "decode_dna_to_bits d = Inl e" by (auto simp: isl_def)
  show ?thesis
  proof (cases "decode_dna_to_bits a")
    case (Inl e')
    have "decode_row fp rp st (n, r) = add_error (ProcessingError n e') (note_metadata r st)"
      by (simp add: decode_row_def Let_def x Inl)
    then show ?thesis by blast
  next
    case (Inr address_bits)
    have "decode_row fp rp st (n, r) = add_error (ProcessingError n e) (note_metadata r st)"
      by (simp add: decode_row_def Let_def x Inr e)
    then show ?thesis by blast
  qed
next
  fix a d c
  assume x: "extract_oligo_parts (strip (row_oligo r)) fp rp = Some (a, d, c)"
    and l: "32 \<le> length c" and "isl (decode_dna_to_bits (take 32 c))"
  then obtain e where e: "decode_dna_to_bits (take 32 c) = Inl e" by (auto simp: isl_def)
  from l have ne: "c \<noteq> []" by auto
  show ?thesis
  proof (cases "decode_dna_to_bits a")
    case (Inl e')
    have "decode_row fp rp st (n, r) = add_error (ProcessingError n e') (note_metadata r st)"
      by (simp add: decode_row_def Let_def x Inl)
    then show ?thesis by blast
  next
    case a: (Inr address_bits)
    show ?thesis
    proof (cases "decode_dna_to_bits d")
      case (Inl e')
      have "decode_row fp rp st (n, r) = add_error (ProcessingError n e') (note_metadata r st)"
        by (simp add: decode_row_def Let_def x a Inl)
      then show ?thesis by blast
    next
      case (Inr data_bits)
      have "decode_row fp rp st (n, r) = add_error (ProcessingError n e) (note_metadata r st)"
        by (simp add: decode_row_def Let_def x a Inr l ne e)
      then show ?thesis by blast
    qed
  qed
qed

lemma decode_row_keys:
  "fst ` set (decoded_blocks (decode_row fp rp st (n, r)))
     \<subseteq> fst ` set (decoded_blocks st) \<union> {key. snd key < 2 ^ 19}"
proof (cases "extract_oligo_parts (strip (row_oligo r)) fp rp = None
           \<or> (\<exists>address_dna data_dna crc32_dna.
                 extract_oligo_parts (strip (row_oligo r)) fp rp
                   = Some (address_dna, data_dna, crc32_dna)
                 \<and> (isl (decode_dna_to_bits address_dna)
                    \<or> isl (decode_dna_to_bits data_dna)
                    \<or> 32 \<le> length crc32_dna \<and> isl (decode_dna_to_bits (take 32 crc32_dna))))")
  case True
  from decode_row_rejected[OF True, of st n] obtain e where
    "decode_row fp rp st (n, r) = add_error e (note_metadata r st)" by blast
  then show ?thesis by (simp add: add_error_def note_metadata_def Let_def)
next
  case False
  then obtain a d c where x: "extract_oligo_parts (strip (row_oligo r)) fp rp = Some (a, d, c)"
    by (cases "extract_oligo_parts (strip (row_oligo r)) fp rp") auto
  with False obtain ab db where a: "decode_dna_to_bits a = Inr ab"
    and d: "decode_dna_to_bits d = Inr db"
    by (cases "decode_dna_to_bits a"; cases "decode_dna_to_bits d") auto
  from extract_oligo_parts_lengths[OF x] decode_dna_to_bits_bits[OF a]
  have "length ab = 19" by simp
  with binary_value_lt[of ab] have lt: "binary_value ab < 2 ^ 19" by simp
  note cl = decode_row_classified[OF x a d, of st n]
  show ?thesis
  proof (cases "32 \<le> length c")
    case l: True
    with False x obtain cb where cb: "decode_dna_to_bits (take 32 c) = Inr cb"
      by (cases "decode_dna_to_bits (take 32 c)") auto
    show ?thesis
      unfolding cl cb using l lt
      by (auto simp: add_error_def count_invalid_def count_valid_def note_metadata_def Let_def
            dom_update)
  next
    case l: False
    show ?thesis
      unfolding cl using l lt
      by (auto simp: count_missing_def note_metadata_def Let_def dom_update)
  qed
qed

lemma foldl_decode_row_keys:
  "fst ` set (decoded_blocks (foldl (decode_row fp rp) st nrs))
     \<subseteq> fst ` set (decoded_blocks st) \<union> {key. snd key < 2 ^ 19}"
proof (induction nrs arbitrary: st)
  case Nil
  show ?case by simp
next
  case (Cons nr nrs)
  obtain n r where nr: "nr = (n, r)" by (cases nr)
  from Cons.IH[of "decode_row fp rp st (n, r)"] decode_row_keys[of fp rp st n r]
  show ?case unfolding nr by auto
qed

lemma decoded_addresses_bound:
  "key \<in> fst ` set (decoded_blocks (decode_rows fp rp rows)) \<Longrightarrow> snd key < 524288"
  using foldl_decode_row_keys[of fp rp initial_decode_state "zip [2..<2 + length rows] rows"]
  unfolding decode_rows_def by (auto simp: initial_decode_state_def)

section \<open>The segment loop\<close>

lemma py_slice_bits: "list_all is_bit bits \<Longrightarrow> list_all is_bit (py_slice a b bits)"
  by (auto simp: py_slice_def list_all_iff dest: in_set_dropD in_set_takeD)

lemma segment_data_bits: "list_all is_bit bits \<Longrightarrow> list_all is_bit (segment_data bits seg i)"
  by (simp add: segment_data_def ljust_def py_slice_bits)

lemma segment_data_length: "96 \<le> length (segment_data bits seg i)"
  by (simp add: segment_data_def ljust_def)

lemma segment_data_nonempty [simp]: "segment_data bits seg i \<noteq> []"
  using segment_data_length[of bits seg i] by auto

lemma is_bit_set: "list_all is_bit s \<Longrightarrow> set s \<subseteq> {CHR ''0'', CHR ''1''}"
  by (auto simp: list_all_iff is_bit_def)

lemma encode_field:
  assumes "list_all is_bit s"
  obtains dna g' where "encode_bits_to_dna g s [] = Inr (dna, g')"
    and "decode_dna_to_bits dna = Inr s" and "no_run4 dna"
proof -
  from encode_total[OF is_bit_set[OF assms]] obtain dna g' where
    e: "encode_bits_to_dna g s [] = Inr (dna, g')" by blast
  from that[OF e decode_encode[OF e] encode_no_run4[OF e]] show thesis .
qed

lemma encode_segment_ok:
  assumes "list_all is_bit bits"
  shows "\<exists>x g'. encode_segment g bits fp rp seg i address = Inr (x, g')
           \<and> fst x = format_0b 19 address
           \<and> fst (snd x) = segment_data bits seg i
           \<and> well_encoded fp rp x"
proof -
  let ?a = "format_0b 19 address" and ?d = "segment_data bits seg i"
  obtain ad g1 where a: "encode_bits_to_dna g ?a [] = Inr (ad, g1)"
    and a': "decode_dna_to_bits ad = Inr ?a" "no_run4 ad"
    using encode_field[OF format_0b_bits] by blast
  have db: "list_all is_bit ?d" by (rule segment_data_bits[OF assms])
  let ?c = "format_0b 32 (unat (zlib_crc32 (big_endian ((length ?d + 7) div 8) (binary_value ?d))))"
  have c: "calculate_crc32_checksum ?d = Inr ?c"
    by (rule calculate_crc32_checksum_bits[OF db]) simp
  obtain dd g2 where d: "encode_bits_to_dna g1 ?d [] = Inr (dd, g2)"
    and d': "decode_dna_to_bits dd = Inr ?d" "no_run4 dd"
    using encode_field[OF db] by blast
  obtain cd g3 where e: "encode_bits_to_dna g2 ?c [] = Inr (cd, g3)"
    and e': "decode_dna_to_bits cd = Inr ?c" "no_run4 cd"
    using encode_field[OF format_0b_bits] by blast
  have r: "encode_segment g bits fp rp seg i address
           = Inr ((?a, ?d, ?c, fp @ ad @ dd @ cd @ rp), g3)"
    unfolding encode_segment_def Let_def segment_data_def[symmetric]
    by (simp add: a c d e)
  have "well_encoded fp rp (?a, ?d, ?c, fp @ ad @ dd @ cd @ rp)"
    unfolding well_encoded_def prod.case using a' c d' e' by blast
  with r show ?thesis by simp
qed

lemma segment_loop_stop:
  "0 < seg \<Longrightarrow> length bits \<le> i \<or> maxa < address \<Longrightarrow>
   segment_loop g bits fp rp seg maxa i address = Inr ([], g)"
  by (subst segment_loop.simps) auto

lemma segment_loop_step:
  assumes "0 < seg" and "i < length bits" and "address \<le> maxa"
    and "encode_segment g bits fp rp seg i address = Inr (x, g1)"
    and "segment_loop g1 bits fp rp seg maxa (i + seg * 8) (address + 1) = Inr (xs, g2)"
  shows "segment_loop g bits fp rp seg maxa i address = Inr (x # xs, g2)"
  using assms by (subst segment_loop.simps) simp

lemma ceil_div_step:
  assumes "0 < (m::nat)" and "0 < d"
  shows "(d + m - 1) div m = Suc ((d - m + m - 1) div m)"
proof (cases "m \<le> d")
  case True
  define a where "a = d - m + m - 1"
  have "d + m - 1 = a + m" using True assms by (simp add: a_def)
  then have "(d + m - 1) div m = (a + m) div m" by simp
  also have "\<dots> = Suc (a div m)" using assms(1) div_add_self2[of m a] by simp
  finally show ?thesis by (simp only: a_def)
next
  case False
  then have z: "(d - m + m - 1) div m = 0" using assms by simp
  have "m \<le> d + m - 1" "d + m - 1 < 2 * m" using False assms by simp_all
  then have "(d + m - 1) div m = 1" by (simp add: div_nat_eqI)
  with z show ?thesis by simp
qed

text \<open>The number of iterations of the segment loop.\<close>

lemma segment_loop_spec:
  assumes "list_all is_bit bits" and "0 < seg"
  shows "\<exists>rows g'. segment_loop g bits fp rp seg maxa i address = Inr (rows, g')
           \<and> rows_spec fp rp bits seg i address rows
           \<and> length rows = min ((length bits - i + seg * 8 - 1) div (seg * 8))
                                (Suc maxa - address)"
  using assms
proof (induction "length bits - i" arbitrary: i address g rule: less_induct)
  case less
  show ?case
  proof (cases "length bits \<le> i \<or> maxa < address")
    case True
    have "min ((length bits - i + seg * 8 - 1) div (seg * 8)) (Suc maxa - address) = 0"
    proof (cases "length bits \<le> i")
      case True
      then have "length bits - i + seg * 8 - 1 < seg * 8" using less.prems by simp
      then show ?thesis by simp
    next
      case False
      with True show ?thesis by simp
    qed
    with segment_loop_stop[OF less.prems(2) True] show ?thesis by simp
  next
    case False
    then have i: "i < length bits" and a: "address \<le> maxa" by simp_all
    from encode_segment_ok[OF less.prems(1)] obtain x g1 where
      x: "encode_segment g bits fp rp seg i address = Inr (x, g1)"
         "fst x = format_0b 19 address" "fst (snd x) = segment_data bits seg i"
         "well_encoded fp rp x" by blast
    have "length bits - (i + seg * 8) < length bits - i" using i less.prems(2) by simp
    from less.hyps[OF this less.prems] obtain xs g2 where
      xs: "segment_loop g1 bits fp rp seg maxa (i + seg * 8) (address + 1) = Inr (xs, g2)"
          "rows_spec fp rp bits seg (i + seg * 8) (address + 1) xs"
          "length xs = min ((length bits - (i + seg * 8) + seg * 8 - 1) div (seg * 8))
                           (Suc maxa - (address + 1))" by blast
    have "length bits - (i + seg * 8) = length bits - i - seg * 8" by simp
    moreover have "0 < seg * 8" "0 < length bits - i" using less.prems(2) i by simp_all
    ultimately have "(length bits - i + seg * 8 - 1) div (seg * 8)
          = Suc ((length bits - (i + seg * 8) + seg * 8 - 1) div (seg * 8))"
      using ceil_div_step[of "seg * 8" "length bits - i"] by (simp only:)
    then have "length (x # xs) = min ((length bits - i + seg * 8 - 1) div (seg * 8))
                                     (Suc maxa - address)"
      using xs(3) a by (simp add: Suc_diff_le)
    with segment_loop_step[OF less.prems(2) i a x(1) xs(1)] x xs(2) show ?thesis by simp
  qed
qed
lemma rows_spec_addresses:
  "rows_spec fp rp bits seg i address rows \<Longrightarrow>
   map fst rows = map (format_0b 19) [address..<address + length rows]"
proof (induction rows arbitrary: i address)
  case Nil
  then show ?case by simp
next
  case (Cons x xs)
  from Cons.prems have x: "fst x = format_0b 19 address"
    and r: "rows_spec fp rp bits seg (i + seg * 8) (Suc address) xs" by simp_all
  have "[address..<address + length (x # xs)] = address # [Suc address..<Suc address + length xs]"
    by (simp add: upt_conv_Cons del: upt_Suc)
  with Cons.IH[OF r] x show ?case by (simp del: upt_Suc)
qed

lemma rows_spec_well_encoded:
  "rows_spec fp rp bits seg i address rows \<Longrightarrow> x \<in> set rows \<Longrightarrow> well_encoded fp rp x"
  by (induction rows arbitrary: i address) auto

lemma rows_spec_data:
  "rows_spec fp rp bits seg i address rows \<Longrightarrow>
   map (\<lambda>x. fst (snd x)) rows
     = map (\<lambda>k. segment_data bits seg (i + k * (seg * 8))) [0..<length rows]"
proof (induction rows arbitrary: i address)
  case Nil
  then show ?case by simp
next
  case (Cons x xs)
  from Cons.prems have x: "fst (snd x) = segment_data bits seg i"
    and r: "rows_spec fp rp bits seg (i + seg * 8) (Suc address) xs" by simp_all
  note ih = Cons.IH[OF r]
  have "[0..<length (x # xs)] = 0 # map Suc [0..<length xs]"
    by (simp add: upt_conv_Cons map_Suc_upt del: upt_Suc)
  then show ?case by (simp add: ih x o_def add.assoc del: upt_Suc)
qed

lemma segment_loop_Inr:
  assumes "segment_loop g bits fp rp seg maxa i address = Inr (rows, g')"
    and "list_all is_bit bits" and "0 < seg"
  shows "rows_spec fp rp bits seg i address rows"
    and "length rows = min ((length bits - i + seg * 8 - 1) div (seg * 8)) (Suc maxa - address)"
  using segment_loop_spec[OF assms(2,3), of g fp rp maxa i address] assms(1) by auto

lemma bits_to_dna_with_crc32_ok:
  assumes "list_all is_bit bits" and "0 < seg"
  shows "\<exists>rows g'. bits_to_dna_with_crc32 g bits fp rp seg maxa = Inr (rows, g')
           \<and> rows_spec fp rp bits seg 0 1 rows
           \<and> length rows = min ((length bits + seg * 8 - 1) div (seg * 8)) maxa"
  using segment_loop_spec[OF assms, of g fp rp maxa 0 1] assms(1)
  by (simp add: bits_to_dna_with_crc32_def)

subsection \<open>The oligo of the one-byte file 0xFF under the first-synonym policy\<close>

lemma encode_segment_fields:
  assumes "encode_bits_to_dna g (format_0b 19 address) [] = Inr (ad, g1)"
    and "calculate_crc32_checksum (segment_data bits seg i) = Inr c"
    and "encode_bits_to_dna g1 (segment_data bits seg i) [] = Inr (dd, g2)"
    and "encode_bits_to_dna g2 c [] = Inr (cd, g3)"
  shows "encode_segment g bits fp rp seg i address
         = Inr ((format_0b 19 address, segment_data bits seg i, c, fp @ ad @ dd @ cd @ rp), g3)"
  unfolding encode_segment_def Let_def segment_data_def[symmetric]
  by (simp add: assms)

lemma first_synonym_shift: "(\<lambda>n. first_synonym (Suc n)) = first_synonym"
  by (simp add: first_synonym_def fun_eq_iff)

lemma encode_first_synonym_rng:
  "encode_bits_to_dna first_synonym bits lb = Inr (dna, g') \<Longrightarrow> g' = first_synonym"
proof (induction bits arbitrary: lb dna)
  case Nil
  then show ?case by simp
next
  case (Cons b bits)
  from Cons.prems show ?case
  proof (rule encode_Cons_Inr)
    fix syns chosen g1 base rest
    assume c: "random_choice first_synonym syns = Inr (chosen, g1)"
      and r: "encode_bits_to_dna g1 bits
          (if length (lb @ [base]) > HOMOPOLYMER_LIMIT then tl (lb @ [base]) else lb @ [base])
        = Inr (rest, g')"
    from random_choice_mem[OF c] have "g1 = first_synonym" by (simp add: first_synonym_shift)
    with r Cons.IH show ?case by blast
  qed
qed

lemma run4_inside: "\<not> no_run4 (xs @ a # a # a # a # ys)"
proof (induction xs)
  case Nil
  show ?case by simp
next
  case (Cons x xs)
  then show ?case using no_run4_tl[of x "xs @ a # a # a # a # ys"] by auto
qed

lemma encode_address_one:
  "encode_bits_to_dna first_synonym (format_0b 19 1) [] = Inr (''AAACAAACAAACAAACAAG'', first_synonym)"
proof -
  have f: "format_0b 19 1 = ''0000000000000000001''"
    by code_simp
  show ?thesis
    unfolding f
    by (simp add: BIT_TO_BASE_def random_choice_def first_synonym_def fun_eq_iff
          avoid_homopolymer_def HOMOPOLYMER_LIMIT_def last_slice_def synonyms_def Let_def)
qed

lemma encode_three_ones:
  assumes "encode_bits_to_dna first_synonym (CHR ''1'' # CHR ''1'' # CHR ''1'' # rest) [] = Inr (dna, g')"
  shows "\<exists>dna'. dna = CHR ''G'' # CHR ''G'' # CHR ''G'' # dna'"
  using assms
  by (auto simp: BIT_TO_BASE_def random_choice_def first_synonym_def
          avoid_homopolymer_def HOMOPOLYMER_LIMIT_def last_slice_def synonyms_def Let_def
        split: sum.splits)

lemma read_binary_file_ff: "read_binary_file [255] = (''11111111'', 1)"
proof -
  have "format_0b 8 255 = ''11111111''" by code_simp
  then show ?thesis by (simp add: read_binary_file_def)
qed

lemma segment_data_ff:
  "segment_data ''11111111'' 12 0
   = CHR ''1'' # CHR ''1'' # CHR ''1'' # (''11111'' @ replicate 88 (CHR ''0''))"
  by (simp add: segment_data_def ljust_def py_slice_def)

lemma oligo_of_ff:
  "\<exists>x. bits_to_dna_with_crc32 first_synonym ''11111111'' fp rp 12 1 = Inr ([x], first_synonym)
       \<and> \<not> no_run4 (snd (snd (snd x)))"
proof -
  let ?bits = "''11111111''"
  let ?d = "segment_data ?bits 12 0"
  have b: "list_all is_bit ?bits" by (simp add: is_bit_def)
  have db: "list_all is_bit ?d" by (rule segment_data_bits[OF b])
  obtain c where c: "calculate_crc32_checksum ?d = Inr c" and cb: "list_all is_bit c"
    using calculate_crc32_checksum_bits[OF db] by simp
  obtain dd g2 where d: "encode_bits_to_dna first_synonym ?d [] = Inr (dd, g2)"
    using encode_field[OF db] by blast
  from encode_first_synonym_rng[OF d] have g2: "g2 = first_synonym" .
  from d obtain dd' where dd: "dd = CHR ''G'' # CHR ''G'' # CHR ''G'' # dd'"
    unfolding segment_data_ff using encode_three_ones by blast
  obtain cd g3 where e: "encode_bits_to_dna first_synonym c [] = Inr (cd, g3)"
    using encode_field[OF cb] by blast
  from encode_first_synonym_rng[OF e] have g3: "g3 = first_synonym" .
  let ?oligo = "fp @ ''AAACAAACAAACAAACAAG'' @ dd @ cd @ rp"
  have s: "encode_segment first_synonym ?bits fp rp 12 0 1
           = Inr ((format_0b 19 1, ?d, c, ?oligo), first_synonym)"
    using encode_segment_fields[OF encode_address_one c d[unfolded g2] e[unfolded g3]] .
  have stop: "segment_loop first_synonym ?bits fp rp 12 1 (0 + 12 * 8) (1 + 1) = Inr ([], first_synonym)"
    by (rule segment_loop_stop) simp_all
  have "segment_loop first_synonym ?bits fp rp 12 1 0 1
        = Inr ([(format_0b 19 1, ?d, c, ?oligo)], first_synonym)"
    by (rule segment_loop_step[OF _ _ _ s stop]) simp_all
  then have r: "bits_to_dna_with_crc32 first_synonym ?bits fp rp 12 1
        = Inr ([(format_0b 19 1, ?d, c, ?oligo)], first_synonym)"
    using b by (simp add: bits_to_dna_with_crc32_def)
  have "?oligo = (fp @ ''AAACAAACAAACAAACAA'') @ CHR ''G'' # CHR ''G'' # CHR ''G'' # CHR ''G''
                   # (dd' @ cd @ rp)"
    by (simp add: dd)
  then have "\<not> no_run4 ?oligo" using run4_inside by metis
  with r show ?thesis by simp
qed

subsection \<open>The address ceiling\<close>

lemma encode_segment_cong:
  "py_slice i (i + seg * 8) bits = py_slice i (i + seg * 8) bits' \<Longrightarrow>
   encode_segment g bits fp rp seg i address = encode_segment g bits' fp rp seg i address"
  unfolding encode_segment_def by (simp only:)

lemma segment_loop_unfold:
  assumes "0 < seg" and "i < length bits" and "address \<le> maxa"
  shows "segment_loop g bits fp rp seg maxa i address =
     (case encode_segment g bits fp rp seg i address of
        Inl e \<Rightarrow> Inl e
      | Inr (details, g1) \<Rightarrow>
          (case segment_loop g1 bits fp rp seg maxa (i + seg * 8) (address + 1) of
             Inl e \<Rightarrow> Inl e
           | Inr (oligos_with_details, g2) \<Rightarrow> Inr (details # oligos_with_details, g2)))"
  using assms by (subst segment_loop.simps) simp

lemma segment_loop_take:
  assumes "i = (address - 1) * (seg * 8)" and "1 \<le> address"
  shows "segment_loop g (take (maxa * (seg * 8)) bits) fp rp seg maxa i address
         = segment_loop g bits fp rp seg maxa i address"
  using assms
proof (induction "length bits - i" arbitrary: i address g rule: less_induct)
  case less
  let ?m = "seg * 8" and ?t = "take (maxa * (seg * 8)) bits"
  show ?case
  proof (cases "seg = 0")
    case True
    then show ?thesis by (simp add: segment_loop.simps[of g _ fp rp 0])
  next
    case False
    then have seg: "0 < seg" by simp
    show ?thesis
    proof (cases "length bits \<le> i \<or> maxa < address")
      case True
      then have "length ?t \<le> i \<or> maxa < address" by auto
      from segment_loop_stop[OF seg this] segment_loop_stop[OF seg True] show ?thesis by simp
    next
      case False
      then have i: "i < length bits" and a: "address \<le> maxa" by simp_all
      from a less.prems have "i + ?m = address * ?m"
        by (cases address) (simp_all add: algebra_simps)
      also have "\<dots> \<le> maxa * ?m" using a by simp
      finally have le: "i + ?m \<le> maxa * ?m" .
      with seg have it: "i < length ?t" using i by simp
      have sl: "py_slice i (i + ?m) ?t = py_slice i (i + ?m) bits"
        using le by (simp add: py_slice_def min_absorb1)
      have es: "encode_segment g ?t fp rp seg i address = encode_segment g bits fp rp seg i address"
        by (rule encode_segment_cong[OF sl])
      have d: "length bits - (i + ?m) < length bits - i" using i seg by simp
      have n: "i + ?m = (address + 1 - 1) * ?m" using less.prems by (cases address) (simp_all add: algebra_simps)
      have ih: "\<And>g1. segment_loop g1 ?t fp rp seg maxa (i + ?m) (address + 1)
                 = segment_loop g1 bits fp rp seg maxa (i + ?m) (address + 1)"
        by (rule less.hyps[OF d n]) simp
      show ?thesis
        unfolding segment_loop_unfold[OF seg it a] segment_loop_unfold[OF seg i a] es
        by (cases "encode_segment g bits fp rp seg i address") (auto simp: ih[unfolded Suc_eq_plus1[symmetric]])
    qed
  qed
qed

lemma bits_to_dna_with_crc32_take:
  assumes "list_all is_bit bits"
  shows "bits_to_dna_with_crc32 g (take (maxa * (seg * 8)) bits) fp rp seg maxa
         = bits_to_dna_with_crc32 g bits fp rp seg maxa"
proof -
  from assms have "list_all is_bit (take (maxa * (seg * 8)) bits)"
    by (auto simp: list_all_iff dest: in_set_takeD)
  with assms show ?thesis
    using segment_loop_take[of 0 1 seg g maxa bits fp rp]
    by (simp add: bits_to_dna_with_crc32_def)
qed

subsection \<open>Decoding the rows the encoder writes\<close>

lemma base_not_space: "BASE_TO_BIT c = Some b \<Longrightarrow> \<not> is_space c"
  by (auto simp: BASE_TO_BIT_def is_space_def split: if_splits)

lemma decoded_no_space: "decode_dna_to_bits dna = Inr bits \<Longrightarrow> no_space dna"
proof (induction dna arbitrary: bits)
  case Nil
  then show ?case by (simp add: no_space_def)
next
  case (Cons c dna)
  from Cons.prems obtain b bs where "BASE_TO_BIT c = Some b" "decode_dna_to_bits dna = Inr bs"
    by (auto split: option.splits sum.splits)
  with Cons.IH[of bs] base_not_space show ?case by (simp add: no_space_def)
qed

lemma no_space_append [simp]: "no_space (xs @ ys) \<longleftrightarrow> no_space xs \<and> no_space ys"
  by (simp add: no_space_def)

lemma strip_no_space: "no_space s \<Longrightarrow> strip s = s"
proof (rule strip_id)
  assume "no_space s" and "s \<noteq> []"
  then have "hd s \<in> set s" "last s \<in> set s" by simp_all
  with \<open>no_space s\<close> show "\<not> is_space (hd s) \<and> \<not> is_space (last s)"
    by (simp add: no_space_def list_all_iff)
qed

lemma core_sequence_framed: "core_sequence (fp @ core @ rp) fp rp = core"
  by (simp add: core_sequence_def startswith_def endswith_def Let_def)

lemma extract_framed:
  assumes "length ad = 19" and "length dd = 96"
  shows "extract_oligo_parts (fp @ (ad @ dd @ cd) @ rp) fp rp = Some (ad, dd, cd)"
  unfolding extract_oligo_parts_def core_sequence_framed Let_def
  using assms by (simp add: py_slice_def)

lemma decode_row_ok:
  assumes ok: "row_ok fp rp r" and fp: "no_space fp" and rp: "no_space rp"
  shows "decode_row fp rp st (n, r) =
           (count_valid (note_metadata r st))\<lparr> decoded_blocks :=
              AList.update (row_key r) (row_data_bits r) (decoded_blocks st) \<rparr>"
proof -
  from ok obtain ad dd cd where
    o: "row_oligo r = fp @ ad @ dd @ cd @ rp"
    and a: "decode_dna_to_bits ad = Inr (row_address r)"
    and d: "decode_dna_to_bits dd = Inr (row_data_bits r)"
    and c: "decode_dna_to_bits cd = Inr (row_crc32 r)"
    and k: "calculate_crc32_checksum (row_data_bits r) = Inr (row_crc32 r)"
    and la: "length (row_address r) = 19" and ld: "length (row_data_bits r) = 96"
    unfolding row_ok_def well_encoded_def by auto
  from decode_dna_to_bits_bits[OF a] decode_dna_to_bits_bits[OF d] decode_dna_to_bits_bits[OF c] la ld
  have lad: "length ad = 19" and ldd: "length dd = 96" and lcd: "length cd = length (row_crc32 r)"
    and db: "list_all is_bit (row_data_bits r)" by simp_all
  from ld have dne: "row_data_bits r \<noteq> []" by auto
  from calculate_crc32_checksum_bits[OF db dne] k length_crc32_bits
  have "length (row_crc32 r) = 32" by auto
  with lcd have lc: "length cd = 32" by simp
  have "no_space (row_oligo r)"
    unfolding o using fp rp decoded_no_space[OF a] decoded_no_space[OF d] decoded_no_space[OF c]
    by simp
  then have s: "strip (row_oligo r) = fp @ (ad @ dd @ cd) @ rp"
    using strip_no_space o by simp
  have x: "extract_oligo_parts (strip (row_oligo r)) fp rp = Some (ad, dd, cd)"
    unfolding s by (rule extract_framed[OF lad ldd])
  show ?thesis
    unfolding decode_row_classified[OF x a d] row_key_def
    using lc c k by simp
qed
lemma AList_update_fresh:
  "k \<notin> fst ` set xs \<Longrightarrow> AList.update k v xs = xs @ [(k, v)]"
  by (induction xs) auto

lemma foldl_decode_row_ok:
  assumes "list_all (row_ok fp rp) rows" and "no_space fp" and "no_space rp"
    and "distinct (map fst (decoded_blocks st) @ map row_key rows)"
    and "length ns = length rows"
  shows "decoded_blocks (foldl (decode_row fp rp) st (zip ns rows))
           = decoded_blocks st @ map (\<lambda>r. (row_key r, row_data_bits r)) rows
       \<and> info_total_file_size (block_info (foldl (decode_row fp rp) st (zip ns rows)))
           = (if rows = [] then info_total_file_size (block_info st)
              else row_total_file_size (last rows))
       \<and> info_crc_stats (block_info (foldl (decode_row fp rp) st (zip ns rows)))
           = (info_crc_stats (block_info st))
               \<lparr> valid := valid (info_crc_stats (block_info st)) + length rows \<rparr>
       \<and> errors (foldl (decode_row fp rp) st (zip ns rows)) = errors st"
  using assms(1,4,5)
proof (induction rows arbitrary: st ns)
  case Nil
  then show ?case by simp
next
  case (Cons r rows)
  from Cons.prems(3) obtain n ms where ns: "ns = n # ms" and l: "length ms = length rows"
    by (cases ns) auto
  from Cons.prems(1) have ok: "row_ok fp rp r" and oks: "list_all (row_ok fp rp) rows" by simp_all
  let ?s = "decode_row fp rp st (n, r)"
  from Cons.prems(2) have fresh: "row_key r \<notin> fst ` set (decoded_blocks st)" by auto
  have s: "?s = (count_valid (note_metadata r st))\<lparr> decoded_blocks :=
              decoded_blocks st @ [(row_key r, row_data_bits r)] \<rparr>"
    unfolding decode_row_ok[OF ok assms(2,3)] AList_update_fresh[OF fresh] ..
  have db: "decoded_blocks ?s = decoded_blocks st @ [(row_key r, row_data_bits r)]"
    and tf: "info_total_file_size (block_info ?s) = row_total_file_size r"
    and cs: "info_crc_stats (block_info ?s)
             = (info_crc_stats (block_info st))\<lparr> valid := valid (info_crc_stats (block_info st)) + 1 \<rparr>"
    and er: "errors ?s = errors st"
    unfolding s by (simp_all add: count_valid_def note_metadata_def Let_def)
  from Cons.prems(2) have di: "distinct (map fst (decoded_blocks ?s) @ map row_key rows)"
    unfolding db by auto
  from Cons.IH[OF oks di l] show ?case
    unfolding ns by (simp add: db tf cs er)
qed

lemma decode_rows_ok:
  assumes "list_all (row_ok fp rp) rows" and "no_space fp" and "no_space rp"
    and "distinct (map row_key rows)"
  shows "decoded_blocks (decode_rows fp rp rows) = map (\<lambda>r. (row_key r, row_data_bits r)) rows"
    and "rows \<noteq> [] \<Longrightarrow> info_total_file_size (block_info (decode_rows fp rp rows))
           = row_total_file_size (last rows)"
    and "info_crc_stats (block_info (decode_rows fp rp rows))
           = \<lparr> valid = length rows, invalid = 0, missing = 0 \<rparr>"
    and "errors (decode_rows fp rp rows) = []"
proof -
  have d: "distinct (map fst (decoded_blocks initial_decode_state) @ map row_key rows)"
    using assms(4) by (simp add: initial_decode_state_def)
  have l: "length [2..<2 + length rows] = length rows"
    by (simp only: length_upt add_diff_cancel_left')
  note f = foldl_decode_row_ok[OF assms(1-3) d l, folded decode_rows_def]
  from f show "decoded_blocks (decode_rows fp rp rows) = map (\<lambda>r. (row_key r, row_data_bits r)) rows"
    by (simp add: initial_decode_state_def)
  from f show "rows \<noteq> [] \<Longrightarrow> info_total_file_size (block_info (decode_rows fp rp rows))
           = row_total_file_size (last rows)" by simp
  from f show "info_crc_stats (block_info (decode_rows fp rp rows))
           = \<lparr> valid = length rows, invalid = 0, missing = 0 \<rparr>"
    by (simp add: initial_decode_state_def)
  from f show "errors (decode_rows fp rp rows) = []"
    by (simp add: initial_decode_state_def)
qed

lemma length_format_byte: "length (format_0b 8 (unat (b :: byte))) = 8"
proof -
  have "unat b < 2 ^ 8" using unsigned_less[of b] by simp
  then show ?thesis by (simp add: length_format_0b)
qed

lemma read_binary_file_bits:
  "length (fst (read_binary_file B)) = 8 * length B"
  "list_all is_bit (fst (read_binary_file B))"
  "snd (read_binary_file B) = length B"
  by (induction B) (simp_all add: read_binary_file_def length_format_byte)

lemma big_endian_bytes:
  "big_endian (length B) (binary_value (fst (read_binary_file B))) = B"
proof (induction B)
  case Nil
  then show ?case by (simp add: read_binary_file_def)
next
  case (Cons b B)
  have r: "fst (read_binary_file (b # B)) = format_0b 8 (unat b) @ fst (read_binary_file B)"
    by (simp add: read_binary_file_def)
  have l: "length (fst (read_binary_file B)) = 8 * length B"
    by (rule read_binary_file_bits)
  show ?case
    unfolding r using big_endian_Cons[OF l, of "format_0b 8 (unat b)"] Cons.IH by simp
qed

lemma map_of_keys:
  "distinct (map fst kvs) \<Longrightarrow> map (\<lambda>k. the (map_of kvs k)) (map fst kvs) = map snd kvs"
proof (induction kvs)
  case Nil
  then show ?case by simp
next
  case (Cons kv kvs)
  obtain k v where kv: "kv = (k, v)" by (cases kv)
  from Cons.prems kv have nk: "k \<notin> set (map fst kvs)" and d: "distinct (map fst kvs)" by simp_all
  have "map (\<lambda>k'. the (map_of ((k, v) # kvs) k')) (map fst kvs)
           = map (\<lambda>k'. the (map_of kvs k')) (map fst kvs)"
  proof (rule map_cong[OF refl])
    fix k' assume "k' \<in> set (map fst kvs)"
    with nk have "k' \<noteq> k" by auto
    then show "the (map_of ((k, v) # kvs) k') = the (map_of kvs k')" by simp
  qed
  with Cons.IH[OF d] show ?case by (simp add: kv)
qed

lemma write_decoded_ok:
  assumes s: "sorted_wrt (<) (map fst (decoded_blocks st))"
    and c: "concat (map snd (decoded_blocks st)) = fst (read_binary_file B) @ pad"
    and t: "info_total_file_size (block_info st) = length B"
    and ne: "B \<noteq> []"
  shows "write_decoded True st = Inr (Some B)"
proof -
  let ?bits = "fst (read_binary_file B)"
  have lb: "length ?bits = 8 * length B" and bb: "list_all is_bit ?bits"
    by (rule read_binary_file_bits)+
  from lb ne have bne: "?bits \<noteq> []" by auto
  with c have dne: "decoded_blocks st \<noteq> []" by auto
  from s have so: "sorted (map fst (decoded_blocks st))" and di: "distinct (map fst (decoded_blocks st))"
    by (simp_all add: strict_sorted_iff)
  have k: "sort (map fst (decoded_blocks st)) = map fst (decoded_blocks st)"
    by (rule sorted_sort_id[OF so])
  have bs: "concat (map (\<lambda>key. the (map_of (decoded_blocks st) key)) (map fst (decoded_blocks st)))
            = ?bits @ pad"
    unfolding map_of_keys[OF di] by (rule c)
  have tk: "take (length B * 8) (?bits @ pad) = ?bits" using lb by simp
  have v: "int_base2 ?bits = Inr (binary_value ?bits)" by (rule int_base2_bits[OF bb bne])
  have "binary_value ?bits < 2 ^ (8 * length B)" using binary_value_lt[of ?bits] lb by simp
  then have "binary_value ?bits < 256 ^ length B" by (simp add: power_mult)
  then have tb: "to_bytes (binary_value ?bits) (length B) = Inr B"
    by (simp add: to_bytes_def big_endian_bytes)
  show ?thesis
    unfolding write_decoded_def Let_def k bs t
    using dne ne by (simp add: tk lb v tb)
qed

subsection \<open>The rows of a file\<close>

lemma segment_data_take:
  "segment_data bits 12 i = ljust 96 (CHR ''0'') (take 96 (drop i bits))"
  by (simp add: segment_data_def py_slice_def drop_take)

lemma length_segment_data_12: "length (segment_data bits 12 i) = 96"
  by (simp add: segment_data_take ljust_def)

lemma concat_segments_from:
  "n = (length bits - i + 95) div 96 \<Longrightarrow>
   concat (map (\<lambda>k. segment_data bits 12 (i + k * 96)) [0..<n])
     = drop i bits @ replicate (n * 96 - (length bits - i)) (CHR ''0'')"
proof (induction n arbitrary: i)
  case 0
  then have "length bits - i = 0" by arith
  then show ?case by simp
next
  case (Suc n)
  have split: "[0..<Suc n] = 0 # map Suc [0..<n]"
    by (simp only: upt_conv_Cons[of 0 "Suc n"] map_Suc_upt)
  have rest: "concat (map (\<lambda>k. segment_data bits 12 (i + Suc k * 96)) [0..<n])
              = concat (map (\<lambda>k. segment_data bits 12 ((i + 96) + k * 96)) [0..<n])"
    by (simp add: add.assoc add.commute)
  show ?case
  proof (cases "96 \<le> length bits - i")
    case True
    then have n: "n = (length bits - (i + 96) + 95) div 96" using Suc.prems by arith
    have first: "segment_data bits 12 i = take 96 (drop i bits)"
      using True by (simp add: segment_data_take ljust_def)
    have d: "take 96 (drop i bits) @ drop (i + 96) bits = drop i bits"
      using append_take_drop_id[of 96 "drop i bits"] by (simp add: add.commute)
    have p: "Suc n * 96 - (length bits - i) = n * 96 - (length bits - (i + 96))"
      using True by arith
    have "concat (map (\<lambda>k. segment_data bits 12 (i + k * 96)) [0..<Suc n])
          = segment_data bits 12 i
            @ concat (map (\<lambda>k. segment_data bits 12 (i + Suc k * 96)) [0..<n])"
      unfolding split by (simp add: o_def)
    also have "\<dots> = take 96 (drop i bits)
                    @ (drop (i + 96) bits
                       @ replicate (n * 96 - (length bits - (i + 96))) (CHR ''0''))"
      by (simp only: first rest Suc.IH[OF n])
    also have "\<dots> = drop i bits @ replicate (Suc n * 96 - (length bits - i)) (CHR ''0'')"
      unfolding p append_assoc[symmetric] d ..
    finally show ?thesis .
  next
    case False
    then have n: "n = 0" using Suc.prems by arith
    show ?thesis using False by (simp add: n segment_data_take ljust_def)
  qed
qed

lemma concat_segments:
  "concat (map (\<lambda>k. segment_data bits 12 (k * 96)) [0..<(length bits + 95) div 96])
     = pad_block bits"
  using concat_segments_from[of "(length bits + 95) div 96" bits 0]
  by (simp add: pad_block_def)

lemma block_slice:
  "py_slice (k * S * 8) (min (k * S * 8 + S * 8) (length bits)) bits = block_bits_of bits S k"
proof -
  have "take (min (k * S * 8 + S * 8) (length bits)) bits = take (k * S * 8 + S * 8) bits"
    by (simp add: min_def)
  then show ?thesis by (simp add: py_slice_def block_bits_of_def drop_take)
qed

lemma length_block_bits_of: "length (block_bits_of bits S k) \<le> min (S * 8) (length bits)"
  by (simp add: block_bits_of_def)

lemma block_bits_of_bits: "list_all is_bit bits \<Longrightarrow> list_all is_bit (block_bits_of bits S k)"
  by (auto simp: block_bits_of_def list_all_iff dest: in_set_dropD in_set_takeD)

lemma segments_fit:
  assumes "(l::nat) \<le> S * 8"
  shows "(l + 95) div 96 \<le> min ((S + 12 - 1) div 12) (((l + 7) div 8 + 12 - 1) div 12)"
  using assms by arith

lemma block_body_ok:
  assumes b: "list_all is_bit bits" and sz: "min (S * 8) (length bits) \<le> 96 * 524287"
  shows "\<exists>rows g'. block_body g bits fp rp S T k = Inr (rows, g')
           \<and> list_all (row_ok fp rp) rows
           \<and> map row_key rows
               = map (\<lambda>a. (k, a)) [1..<1 + (length (block_bits_of bits S k) + 95) div 96]
           \<and> list_all (\<lambda>r. row_total_file_size r = T) rows
           \<and> concat (map row_data_bits rows) = pad_block (block_bits_of bits S k)"
proof -
  let ?bb = "block_bits_of bits S k"
  let ?n = "(length ?bb + 95) div 96"
  let ?maxa = "min ((S + 12 - 1) div 12) (((length ?bb + 7) div 8 + 12 - 1) div 12)"
  let ?mk = "\<lambda>(address_bits, data_bits, crc32_bits, oligo).
                         \<lparr> row_block_index = k,
                           row_address = address_bits,
                           row_data_bits = data_bits,
                           row_crc32 = crc32_bits,
                           row_oligo = oligo,
                           row_block_size = S,
                           row_actual_block_size = (length ?bb + 7) div 8,
                           row_total_file_size = T \<rparr>"
  have bb: "list_all is_bit ?bb" by (rule block_bits_of_bits[OF b])
  have len: "length ?bb \<le> S * 8" using length_block_bits_of[of bits S k] by simp
  have fit: "?n \<le> ?maxa" by (rule segments_fit[OF len])
  have small: "?n \<le> 524287" using length_block_bits_of[of bits S k] sz by arith
  from bits_to_dna_with_crc32_ok[OF bb, of 12 g fp rp ?maxa]
  obtain xs g' where e: "bits_to_dna_with_crc32 g ?bb fp rp 12 ?maxa = Inr (xs, g')"
    and rs: "rows_spec fp rp ?bb 12 0 1 xs"
    and l0: "length xs = min ((length ?bb + 12 * 8 - 1) div (12 * 8)) ?maxa"
    by auto
  have "(length ?bb + 12 * 8 - 1) div (12 * 8) = ?n" by simp
  with l0 fit have l: "length xs = ?n" by (simp only: min_absorb1)
  define rows where "rows = map ?mk xs"
  have body: "block_body g bits fp rp S T k = Inr (rows, g')"
    unfolding block_body_def Let_def block_slice e rows_def by simp
  have addr: "map row_address rows = map (format_0b 19) [1..<1 + length xs]"
    using rows_spec_addresses[OF rs] by (simp add: rows_def split_def o_def)
  have data: "map row_data_bits rows = map (\<lambda>j. segment_data ?bb 12 (j * 96)) [0..<length xs]"
    using rows_spec_data[OF rs] by (simp add: rows_def split_def o_def)
  have lr: "length rows = length xs" by (simp add: rows_def)
  have ok: "list_all (row_ok fp rp) rows"
    unfolding list_all_length
  proof (intro allI impI)
    fix j assume j: "j < length rows"
    then have jx: "j < length xs" by (simp add: lr)
    have r: "rows ! j = ?mk (xs ! j)" using jx by (simp add: rows_def)
    have we: "well_encoded fp rp (xs ! j)"
      by (rule rows_spec_well_encoded[OF rs nth_mem[OF jx]])
    have a: "row_address (rows ! j) = format_0b 19 (1 + j)"
      using arg_cong[OF addr, of "\<lambda>ys. ys ! j"] j jx by (simp del: upt_Suc)
    have "1 + j < 2 ^ 19" using jx l small by simp
    then have la: "length (row_address (rows ! j)) = 19"
      unfolding a by (simp add: length_format_0b)
    have d: "row_data_bits (rows ! j) = segment_data ?bb 12 (j * 96)"
      using arg_cong[OF data, of "\<lambda>ys. ys ! j"] j jx by (simp del: upt_Suc)
    have ld: "length (row_data_bits (rows ! j)) = 96"
      unfolding d by (rule length_segment_data_12)
    have w: "well_encoded fp rp (row_address (rows ! j), row_data_bits (rows ! j),
                                 row_crc32 (rows ! j), row_oligo (rows ! j))"
      using we unfolding r by (cases "xs ! j") simp
    show "row_ok fp rp (rows ! j)" unfolding row_ok_def using w la ld by simp
  qed
  have bi: "map row_block_index rows = map (\<lambda>x. k) xs"
    by (simp add: rows_def split_def o_def)
  have keys: "map row_key rows = map (\<lambda>a. (k, a)) [1..<1 + length rows]"
  proof (rule nth_equalityI)
    show "length (map row_key rows) = length (map (\<lambda>a. (k, a)) [1..<1 + length rows])"
      by (simp del: upt_Suc)
  next
    fix j assume "j < length (map row_key rows)"
    then have j: "j < length rows" by simp
    then have jx: "j < length xs" by (simp add: lr)
    have a: "row_address (rows ! j) = format_0b 19 (1 + j)"
      using arg_cong[OF addr, of "\<lambda>ys. ys ! j"] j jx by (simp del: upt_Suc)
    have i: "row_block_index (rows ! j) = k"
      using arg_cong[OF bi, of "\<lambda>ys. ys ! j"] j jx by simp
    show "map row_key rows ! j = map (\<lambda>a. (k, a)) [1..<1 + length rows] ! j"
      using j by (simp add: row_key_def a i del: upt_Suc)
  qed
  have tot: "list_all (\<lambda>r. row_total_file_size r = T) rows"
    by (simp add: rows_def list_all_iff split_def)
  have cat: "concat (map row_data_bits rows) = pad_block ?bb"
    unfolding data l by (rule concat_segments)
  from keys have keys': "map row_key rows = map (\<lambda>a. (k, a)) [1..<1 + ?n]"
    by (simp only: lr l)
  from body ok keys' tot cat show ?thesis by blast
qed

lemma block_loop_ok:
  assumes b: "list_all is_bit bits" and sz: "min (S * 8) (length bits) \<le> 96 * 524287"
  shows "\<exists>rows g'. block_loop g bits fp rp S T ks = Inr (rows, g')
           \<and> list_all (row_ok fp rp) rows
           \<and> map row_key rows
               = concat (map (\<lambda>k. map (\<lambda>a. (k, a))
                                     [1..<1 + (length (block_bits_of bits S k) + 95) div 96]) ks)
           \<and> list_all (\<lambda>r. row_total_file_size r = T) rows
           \<and> concat (map row_data_bits rows)
               = concat (map (\<lambda>k. pad_block (block_bits_of bits S k)) ks)"
proof (induction ks arbitrary: g)
  case Nil
  show ?case by simp
next
  case (Cons k ks)
  from block_body_ok[OF b sz, of g fp rp T k]
  obtain rows1 g1 where b1: "block_body g bits fp rp S T k = Inr (rows1, g1)"
    and ok1: "list_all (row_ok fp rp) rows1"
    and k1: "map row_key rows1
             = map (\<lambda>a. (k, a)) [1..<1 + (length (block_bits_of bits S k) + 95) div 96]"
    and t1: "list_all (\<lambda>r. row_total_file_size r = T) rows1"
    and c1: "concat (map row_data_bits rows1) = pad_block (block_bits_of bits S k)"
    by blast
  from Cons.IH[of g1]
  obtain rows2 g2 where b2: "block_loop g1 bits fp rp S T ks = Inr (rows2, g2)"
    and ok2: "list_all (row_ok fp rp) rows2"
    and k2: "map row_key rows2
             = concat (map (\<lambda>k. map (\<lambda>a. (k, a))
                                   [1..<1 + (length (block_bits_of bits S k) + 95) div 96]) ks)"
    and t2: "list_all (\<lambda>r. row_total_file_size r = T) rows2"
    and c2: "concat (map row_data_bits rows2)
             = concat (map (\<lambda>k. pad_block (block_bits_of bits S k)) ks)"
    by blast
  have "block_loop g bits fp rp S T (k # ks) = Inr (rows1 @ rows2, g2)"
    by (simp add: b1 b2)
  moreover have "list_all (row_ok fp rp) (rows1 @ rows2)" using ok1 ok2 by simp
  moreover have "map row_key (rows1 @ rows2)
      = concat (map (\<lambda>k. map (\<lambda>a. (k, a))
                            [1..<1 + (length (block_bits_of bits S k) + 95) div 96]) (k # ks))"
    by (simp only: map_append k1 k2 list.map concat.simps)
  moreover have "list_all (\<lambda>r. row_total_file_size r = T) (rows1 @ rows2)"
    using t1 t2 by simp
  moreover have "concat (map row_data_bits (rows1 @ rows2))
      = concat (map (\<lambda>k. pad_block (block_bits_of bits S k)) (k # ks))"
    by (simp only: map_append concat_append c1 c2 list.map concat.simps)
  ultimately show ?case by blast
qed

lemma block_keys_sorted:
  "sorted_wrt (<) ks \<Longrightarrow>
   sorted_wrt (<) (concat (map (\<lambda>k. map (\<lambda>a. (k, a)) [1..<1 + f k]) ks)
                   :: (nat \<times> nat) list)"
proof (induction ks)
  case Nil
  show ?case by simp
next
  case (Cons k ks)
  have one: "sorted_wrt (<) (map (\<lambda>a. (k, a)) [1..<1 + f k])"
    by (simp add: sorted_wrt_map sorted_wrt_upt del: upt_Suc)
  from Cons.prems have rest: "sorted_wrt (<) ks" and lt: "\<forall>j\<in>set ks. k < j" by simp_all
  have cross: "\<forall>x\<in>set (map (\<lambda>a. (k, a)) [1..<1 + f k]).
               \<forall>y\<in>set (concat (map (\<lambda>k. map (\<lambda>a. (k, a)) [1..<1 + f k]) ks)). x < y"
    using lt by (auto simp del: upt_Suc)
  show ?case
    using one Cons.IH[OF rest] cross by (simp add: sorted_wrt_append del: upt_Suc)
qed

lemma pad_block_full: "96 dvd length s \<Longrightarrow> pad_block s = s"
  by (auto simp: pad_block_def dvd_def)

lemma blocks_concat:
  assumes c: "12 dvd S \<or> length bits \<le> S * 8" and n: "length bits \<le> n * S * 8"
  shows "k \<le> n \<Longrightarrow>
         \<exists>pad. concat (map (\<lambda>j. pad_block (block_bits_of bits S j)) [k..<n])
                = drop (k * S * 8) bits @ pad"
proof (induction "n - k" arbitrary: k)
  case 0
  then have "k = n" by simp
  then show ?case using n by simp
next
  case (Suc d)
  then have kn: "k < n" and d: "d = n - Suc k" and le: "Suc k \<le> n" by simp_all
  from Suc.hyps(1)[OF d le] obtain pad' where
    ih: "concat (map (\<lambda>j. pad_block (block_bits_of bits S j)) [Suc k..<n])
         = drop (Suc k * S * 8) bits @ pad'" by blast
  have split: "[k..<n] = k # [Suc k..<n]" using kn by (rule upt_conv_Cons)
  have cat: "concat (map (\<lambda>j. pad_block (block_bits_of bits S j)) [k..<n])
             = pad_block (block_bits_of bits S k) @ drop (Suc k * S * 8) bits @ pad'"
    unfolding split by (simp only: list.map concat.simps ih)
  show ?case
  proof (cases "length bits \<le> Suc k * S * 8")
    case True
    then have e: "drop (Suc k * S * 8) bits = []" by simp
    have "length (drop (k * S * 8) bits) \<le> S * 8" using True by simp
    then have t: "block_bits_of bits S k = drop (k * S * 8) bits"
      by (simp add: block_bits_of_def)
    show ?thesis unfolding cat e t by (simp add: pad_block_def)
  next
    case False
    then have big: "Suc k * S * 8 < length bits" by simp
    then have "S * 8 < length bits" by (simp add: algebra_simps) 
    with c have dv: "12 dvd S" by auto
    from big have "S * 8 \<le> length (drop (k * S * 8) bits)" by simp
    then have lb: "length (block_bits_of bits S k) = S * 8"
      by (simp add: block_bits_of_def)
    from dv have "96 dvd S * 8" by (auto simp: dvd_def)
    then have p: "pad_block (block_bits_of bits S k) = block_bits_of bits S k"
      by (intro pad_block_full) (simp add: lb)
    have "block_bits_of bits S k @ drop (Suc k * S * 8) bits = drop (k * S * 8) bits"
      using append_take_drop_id[of "S * 8" "drop (k * S * 8) bits"]
      by (simp add: block_bits_of_def algebra_simps)
    then show ?thesis unfolding cat p by (metis append_assoc)
  qed
qed
lemma encode_file_to_dna_ok:
  assumes S: "0 < S" and sz: "min S (length B) \<le> 12 * 524287"
    and fp: "fp = [] \<or> length fp = 22" and rp: "rp = [] \<or> length rp = 22"
  shows "\<exists>rows summary g'.
           encode_file_to_dna g B (Some fp) (Some rp) False 0 S = Inr (rows, summary, g')
           \<and> list_all (row_ok fp rp) rows
           \<and> sorted_wrt (<) (map row_key rows)
           \<and> list_all (\<lambda>r. row_total_file_size r = length B) rows
           \<and> concat (map row_data_bits rows)
               = concat (map (\<lambda>k. pad_block (block_bits_of (fst (read_binary_file B)) S k))
                           [0..<(length B + S - 1) div S])"
proof -
  let ?bits = "fst (read_binary_file B)"
  let ?n = "(length B + S - 1) div S"
  have lb: "length ?bits = 8 * length B" and bb: "list_all is_bit ?bits"
    and tb: "snd (read_binary_file B) = length B"
    by (rule read_binary_file_bits)+
  have sz': "min (S * 8) (length ?bits) \<le> 96 * 524287" using sz lb by simp
  from block_loop_ok[OF bb sz', of g fp rp "length B" "[0..<?n]"]
  obtain rows g' where bl: "block_loop g ?bits fp rp S (length B) [0..<?n] = Inr (rows, g')"
    and ok: "list_all (row_ok fp rp) rows"
    and keys: "map row_key rows
               = concat (map (\<lambda>k. map (\<lambda>a. (k, a))
                                     [1..<1 + (length (block_bits_of ?bits S k) + 95) div 96])
                          [0..<?n])"
    and tot: "list_all (\<lambda>r. row_total_file_size r = length B) rows"
    and cat: "concat (map row_data_bits rows)
               = concat (map (\<lambda>k. pad_block (block_bits_of ?bits S k)) [0..<?n])"
    by blast
  have so: "sorted_wrt (<) (map row_key rows)"
    unfolding keys by (rule block_keys_sorted) (rule sorted_wrt_upt)
  have d8: "length ?bits div 8 = length B" using lb by simp
  have "encode_file_to_dna g B (Some fp) (Some rp) False 0 S
        = Inr (rows, (length rows, length B, ?n), g')"
    unfolding encode_file_to_dna_def Let_def option.case
    using fp rp S by (simp add: split_def tb d8 bl bl[unfolded One_nat_def] del: upt_Suc)
  with ok so tot cat show ?thesis by blast
qed

lemma round_trip_general:
  assumes S: "0 < S" and sz: "min S (length B) \<le> 12 * 524287"
    and fp: "fp = [] \<or> length fp = 22" and rp: "rp = [] \<or> length rp = 22"
    and nf: "no_space fp" and nr: "no_space rp"
    and cat: "concat (map (\<lambda>k. pad_block (block_bits_of (fst (read_binary_file B)) S k))
                        [0..<(length B + S - 1) div S])
              = fst (read_binary_file B') @ pad"
    and len: "length B' = length B" and ne: "B \<noteq> []"
  shows "round_trip g B fp rp S = Inr (Some B')"
proof -
  from encode_file_to_dna_ok[OF S sz fp rp, of g]
  obtain rows summary g' where
    e: "encode_file_to_dna g B (Some fp) (Some rp) False 0 S = Inr (rows, summary, g')"
    and ok: "list_all (row_ok fp rp) rows"
    and so: "sorted_wrt (<) (map row_key rows)"
    and tot: "list_all (\<lambda>r. row_total_file_size r = length B) rows"
    and c: "concat (map row_data_bits rows) = fst (read_binary_file B') @ pad"
    unfolding cat by blast
  from so have di: "distinct (map row_key rows)" by (simp add: strict_sorted_iff)
  let ?st = "decode_rows fp rp rows"
  let ?st' = "?st\<lparr> block_info := (block_info ?st)\<lparr> info_block_count := card (block_indices ?st) \<rparr> \<rparr>"
  note dr = decode_rows_ok[OF ok nf nr di]
  from ne len have ne': "B' \<noteq> []" by auto
  have "length (fst (read_binary_file B')) = 8 * length B'" by (rule read_binary_file_bits)
  with ne' have "fst (read_binary_file B') \<noteq> []" by auto
  with c have rne: "rows \<noteq> []" by auto
  then have "last rows \<in> set rows" by simp
  with tot have lt: "row_total_file_size (last rows) = length B" by (simp add: list_all_iff)
  have db: "decoded_blocks ?st' = map (\<lambda>r. (row_key r, row_data_bits r)) rows"
    using dr(1) by simp
  have s': "sorted_wrt (<) (map fst (decoded_blocks ?st'))"
    unfolding db using so by (simp add: o_def)
  have c': "concat (map snd (decoded_blocks ?st')) = fst (read_binary_file B') @ pad"
    unfolding db using c by (simp add: o_def)
  have t': "info_total_file_size (block_info ?st') = length B'"
    using dr(2)[OF rne] lt len by simp
  have w: "write_decoded True ?st' = Inr (Some B')"
    by (rule write_decoded_ok[OF s' c' t' ne'])
  show ?thesis
    unfolding round_trip_def e decode_oligos_from_csv_def Let_def
    by (simp add: w)
qed

subsection \<open>Round trips of concrete files\<close>

lemma ceil_div_covers:
  assumes "0 < (S::nat)"
  shows "l \<le> (l + S - 1) div S * S"
proof -
  have "(l + S - 1) div S * S + (l + S - 1) mod S = l + S - 1" by simp
  moreover have "(l + S - 1) mod S < S" using assms by simp
  ultimately show ?thesis by arith
qed

lemma default_primers_ok:
  "length DEFAULT_FORWARD_PRIMER = 22" "length DEFAULT_REVERSE_PRIMER = 22"
  "no_space DEFAULT_FORWARD_PRIMER" "no_space DEFAULT_REVERSE_PRIMER"
  by (simp_all add: DEFAULT_FORWARD_PRIMER_def DEFAULT_REVERSE_PRIMER_def no_space_def
        is_space_def)

lemma round_trip_empty:
  "round_trip first_synonym [] DEFAULT_FORWARD_PRIMER DEFAULT_REVERSE_PRIMER 1024 = Inr None"
  by (simp add: round_trip_def encode_file_to_dna_def read_binary_file_def default_primers_ok
        decode_oligos_from_csv_def decode_rows_def initial_decode_state_def write_decoded_def
        Let_def)

lemma format_byte_ff: "format_0b 8 255 = ''11111111''"
  by code_simp

lemma format_byte_00: "format_0b 8 0 = ''00000000''"
  by code_simp

lemma zeros_88: "replicate 88 (CHR ''0'') = ''00000000'' @ replicate 80 (CHR ''0'')"
proof -
  have "replicate (8 + 80) (CHR ''0'') = replicate 8 (CHR ''0'') @ replicate 80 (CHR ''0'')"
    by (rule replicate_add)
  moreover have "replicate 8 (CHR ''0'') = ''00000000''" by (simp add: numeral_eq_Suc)
  ultimately show ?thesis by simp
qed

lemma pad_block_byte_ff: "pad_block ''11111111'' = ''11111111'' @ replicate 88 (CHR ''0'')"
  by (simp add: pad_block_def)

lemma round_trip_two_blocks:
  "round_trip first_synonym [255, 255] DEFAULT_FORWARD_PRIMER DEFAULT_REVERSE_PRIMER 1
   = Inr (Some [255, 0])"
proof (rule round_trip_general)
  have b: "fst (read_binary_file [255, 255]) = ''1111111111111111''"
    by (simp add: read_binary_file_def format_byte_ff)
  have b0: "block_bits_of ''1111111111111111'' 1 0 = ''11111111''"
    and b1: "block_bits_of ''1111111111111111'' 1 1 = ''11111111''"
    by (simp_all add: block_bits_of_def)
  have n: "[0..<(length [255 :: byte, 255] + 1 - 1) div 1] = [0, 1]"
    by (simp add: upt_rec)
  have b': "fst (read_binary_file [255, 0]) = ''1111111100000000''"
    by (simp add: read_binary_file_def format_byte_ff format_byte_00)
  show "concat (map (\<lambda>k. pad_block (block_bits_of (fst (read_binary_file [255, 255])) 1 k))
                        [0..<(length [255 :: byte, 255] + 1 - 1) div 1])
              = fst (read_binary_file [255, 0])
                @ (replicate 80 (CHR ''0'') @ ''11111111'' @ replicate 88 (CHR ''0''))"
    unfolding n b b' by (simp only: list.map concat.simps b0 b1 pad_block_byte_ff zeros_88 append.simps append_assoc append_Nil2)
qed (simp_all add: default_primers_ok)

subsection \<open>A block of 524288 segments\<close>

lemma block_body_addresses:
  assumes b: "list_all is_bit bits"
  shows "\<exists>rows g'. block_body g bits fp rp S T k = Inr (rows, g')
           \<and> length rows = (length (block_bits_of bits S k) + 95) div 96
           \<and> (\<forall>i<length rows. row_block_index (rows ! i) = k
                  \<and> row_address (rows ! i) = format_0b 19 (1 + i))"
proof -
  let ?bb = "block_bits_of bits S k"
  let ?n = "(length ?bb + 95) div 96"
  let ?maxa = "min ((S + 12 - 1) div 12) (((length ?bb + 7) div 8 + 12 - 1) div 12)"
  let ?mk = "\<lambda>(address_bits, data_bits, crc32_bits, oligo).
                         \<lparr> row_block_index = k,
                           row_address = address_bits,
                           row_data_bits = data_bits,
                           row_crc32 = crc32_bits,
                           row_oligo = oligo,
                           row_block_size = S,
                           row_actual_block_size = (length ?bb + 7) div 8,
                           row_total_file_size = T \<rparr>"
  have bb: "list_all is_bit ?bb" by (rule block_bits_of_bits[OF b])
  have len: "length ?bb \<le> S * 8" using length_block_bits_of[of bits S k] by simp
  have fit: "?n \<le> ?maxa" by (rule segments_fit[OF len])
  from bits_to_dna_with_crc32_ok[OF bb, of 12 g fp rp ?maxa]
  obtain xs g' where e: "bits_to_dna_with_crc32 g ?bb fp rp 12 ?maxa = Inr (xs, g')"
    and rs: "rows_spec fp rp ?bb 12 0 1 xs"
    and l0: "length xs = min ((length ?bb + 12 * 8 - 1) div (12 * 8)) ?maxa"
    by auto
  have "(length ?bb + 12 * 8 - 1) div (12 * 8) = ?n" by simp
  with l0 fit have l: "length xs = ?n" by (simp only: min_absorb1)
  define rows where "rows = map ?mk xs"
  have body: "block_body g bits fp rp S T k = Inr (rows, g')"
    unfolding block_body_def Let_def block_slice e rows_def by simp
  have lr: "length rows = ?n" by (simp add: rows_def l)
  have el: "\<forall>i<length rows. row_block_index (rows ! i) = k
                  \<and> row_address (rows ! i) = format_0b 19 (1 + i)"
  proof (intro allI impI)
    fix i assume "i < length rows"
    then have ix: "i < length xs" by (simp add: rows_def)
    have "map fst xs ! i = map (format_0b 19) [1..<1 + length xs] ! i"
      by (simp only: rows_spec_addresses[OF rs])
    then have f: "fst (xs ! i) = format_0b 19 (1 + i)" using ix by (simp del: upt_Suc)
    show "row_block_index (rows ! i) = k \<and> row_address (rows ! i) = format_0b 19 (1 + i)"
      using ix f by (simp add: rows_def split_def)
  qed
  from body lr el show ?thesis by blast
qed

lemma one_block_file:
  assumes "length B = 6291456"
  shows "\<exists>rows summary g'.
           encode_file_to_dna g B None None False 0 6291456 = Inr (rows, summary, g')
           \<and> length rows = 524288
           \<and> (\<forall>i<length rows. row_block_index (rows ! i) = 0
                  \<and> row_address (rows ! i) = format_0b 19 (1 + i))"
proof -
  let ?bits = "fst (read_binary_file B)"
  have lb: "length ?bits = 50331648" and bb: "list_all is_bit ?bits"
    and tb: "snd (read_binary_file B) = 6291456"
    using read_binary_file_bits[of B] assms by simp_all
  have bk: "block_bits_of ?bits 6291456 0 = ?bits" by (simp add: block_bits_of_def lb)
  have n: "(50331648 + 95) div 96 = (524288 :: nat)" by simp
  from block_body_addresses[OF bb, of g DEFAULT_FORWARD_PRIMER DEFAULT_REVERSE_PRIMER
         6291456 6291456 0]
  obtain rows g' where
    body: "block_body g ?bits DEFAULT_FORWARD_PRIMER DEFAULT_REVERSE_PRIMER 6291456 6291456 0
           = Inr (rows, g')"
    and lr: "length rows = 524288"
    and el: "\<forall>i<length rows. row_block_index (rows ! i) = 0
                  \<and> row_address (rows ! i) = format_0b 19 (1 + i)"
    unfolding bk lb n by blast
  have bl: "block_loop g ?bits DEFAULT_FORWARD_PRIMER DEFAULT_REVERSE_PRIMER 6291456 6291456 [0]
            = Inr (rows, g')"
    by (simp add: body)
  have "encode_file_to_dna g B None None False 0 6291456
        = Inr (rows, (length rows, 6291456, 1), g')"
    unfolding encode_file_to_dna_def Let_def option.case
    by (simp add: split_def tb lb default_primers_ok body)
  with lr el show ?thesis by blast
qed

lemma length_bin_str_ge: "2 ^ k \<le> n \<Longrightarrow> k < length (bin_str n)"
proof (induction k arbitrary: n)
  case 0
  have "bin_str n \<noteq> []" by simp
  then show ?case by (simp del: bin_str_nonempty)
next
  case (Suc k)
  from Suc.prems have p: "2 * 2 ^ k \<le> n" by simp
  have "(1::nat) \<le> 2 ^ k" by simp
  with p have n2: "\<not> n < 2" and h: "2 ^ k \<le> n div 2" by arith+
  from Suc.IH[OF h] show ?case
    by (subst bin_str.simps) (simp add: n2)
qed

lemma length_address_overflow: "length (format_0b 19 524288) = 20"
proof -
  have "(2::nat) ^ 19 \<le> 524288" by simp
  then have "19 < length (bin_str 524288)" by (rule length_bin_str_ge)
  moreover have "length (bin_str 524288) \<le> 20"
    by (rule length_bin_str) simp_all
  ultimately show ?thesis by (simp add: format_0b_def)
qed

text \<open>
  Claim C1, as stated, fails. For the empty file the encoder writes no row, and the
  decoder, which writes the output file only when it has decoded a segment, writes
  nothing: the round trip yields no byte sequence. For the two-byte file \<open>FF FF\<close> and
  blocks of one byte, each block is stored in a payload of its own that is filled with
  zeros, the filling of the first block stays in the bit stream, and the round trip
  yields \<open>FF 00\<close>.
\<close>

theorem C1_round_trip_counterexample:
  "round_trip first_synonym [] DEFAULT_FORWARD_PRIMER DEFAULT_REVERSE_PRIMER 1024 = Inr None
   \<and> round_trip first_synonym [255, 255] DEFAULT_FORWARD_PRIMER DEFAULT_REVERSE_PRIMER 1
       = Inr (Some [255, 0])"
  using round_trip_empty round_trip_two_blocks by (rule conjI)

text \<open>
  Claim C1, amended. For every non-empty byte sequence \<open>B\<close> and every block size
  \<open>S > 0\<close> such that \<open>B\<close> fits in one block or \<open>S\<close> is a multiple of the 12 bytes of a
  payload, with blocks of at most 524287 payloads and primers that are empty or 22
  symbols long and hold no whitespace: encoding \<open>B\<close> with any synonym choice and decoding
  the rows with the same primers writes exactly \<open>B\<close>.
\<close>

theorem C1_round_trip:
  assumes "B \<noteq> []" and "0 < S" and "length B \<le> S \<or> 12 dvd S"
    and "min S (length B) \<le> 12 * 524287"
    and "fp = [] \<or> length fp = 22" and "rp = [] \<or> length rp = 22"
    and "no_space fp" and "no_space rp"
  shows "round_trip g B fp rp S = Inr (Some B)"
proof -
  let ?bits = "fst (read_binary_file B)"
  let ?n = "(length B + S - 1) div S"
  have lb: "length ?bits = 8 * length B" by (rule read_binary_file_bits)
  have c: "12 dvd S \<or> length ?bits \<le> S * 8" using assms(3) lb by auto
  have n: "length ?bits \<le> ?n * S * 8"
    using ceil_div_covers[OF assms(2), of "length B"] lb by simp
  from blocks_concat[OF c n, of 0] obtain pad where
    "concat (map (\<lambda>j. pad_block (block_bits_of ?bits S j)) [0..<?n]) = ?bits @ pad"
    by auto
  then show ?thesis
    by (rule round_trip_general[OF assms(2,4,5,6,7,8) _ refl assms(1)])
qed

theorem C1_round_trip_witness:
  "[255 :: byte] \<noteq> [] \<and> 0 < (1024 :: nat) \<and> length [255 :: byte] \<le> 1024
   \<and> min 1024 (length [255 :: byte]) \<le> 12 * 524287
   \<and> length DEFAULT_FORWARD_PRIMER = 22 \<and> length DEFAULT_REVERSE_PRIMER = 22
   \<and> no_space DEFAULT_FORWARD_PRIMER \<and> no_space DEFAULT_REVERSE_PRIMER
   \<and> round_trip first_synonym [255] DEFAULT_FORWARD_PRIMER DEFAULT_REVERSE_PRIMER 1024
       = Inr (Some [255])
   \<and> length (replicate 5007 (65 :: byte)) = 5007 \<and> 12 dvd (1200 :: nat)
   \<and> round_trip first_synonym (replicate 5007 65) [] [] 1200
       = Inr (Some (replicate 5007 65))"
proof -
  have a: "round_trip first_synonym [255] DEFAULT_FORWARD_PRIMER DEFAULT_REVERSE_PRIMER 1024
           = Inr (Some [255])"
    by (rule C1_round_trip) (simp_all add: default_primers_ok)
  have b: "round_trip first_synonym (replicate 5007 65) [] [] 1200
           = Inr (Some (replicate 5007 65))"
    by (rule C1_round_trip) (simp_all add: no_space_def)
  from a b show ?thesis by (simp add: default_primers_ok)
qed

text \<open>
  Claim C2, as stated, fails: the window of the last three symbols is local to each
  field, so a run can cross a field boundary. For the file that consists of the byte
  0xFF, with the first synonym chosen every time, the address field ends in G and the
  payload field starts with GGG: the oligo contains GGGG.
\<close>

theorem C2_whole_oligo_run_counterexample:
  "map_sum id (\<lambda>result. list_all no_run4 (map row_oligo (fst result)))
     (encode_file_to_dna first_synonym [255] None None False 0 1024) = Inr False"
proof -
  obtain x where x: "bits_to_dna_with_crc32 first_synonym ''11111111''
        DEFAULT_FORWARD_PRIMER DEFAULT_REVERSE_PRIMER 12 1 = Inr ([x], first_synonym)"
      and r: "\<not> no_run4 (snd (snd (snd x)))"
    using oligo_of_ff by blast
  obtain a d c oligo where xe: "x = (a, d, c, oligo)" by (cases x) auto
  have m: "min ((1024 + 12 - 1) div 12) ((((8::nat) + 7) div 8 + 12 - 1) div 12) = 1" by simp
  from x have x': "bits_to_dna_with_crc32 first_synonym ''11111111''
        DEFAULT_FORWARD_PRIMER DEFAULT_REVERSE_PRIMER 12 (Suc 0) = Inr ([x], first_synonym)"
    by simp
  have bb: "block_body first_synonym ''11111111'' DEFAULT_FORWARD_PRIMER DEFAULT_REVERSE_PRIMER
              1024 1 0
            = Inr ([\<lparr> row_block_index = 0, row_address = a, row_data_bits = d, row_crc32 = c,
                      row_oligo = oligo, row_block_size = 1024, row_actual_block_size = 1,
                      row_total_file_size = 1 \<rparr>], first_synonym)"
    unfolding block_body_def Let_def
    by (simp add: py_slice_def x' xe)
  have p: "length DEFAULT_FORWARD_PRIMER = 22" "length DEFAULT_REVERSE_PRIMER = 22"
    by (simp_all add: DEFAULT_FORWARD_PRIMER_def DEFAULT_REVERSE_PRIMER_def)
  have "encode_file_to_dna first_synonym [255] None None False 0 1024
        = Inr ([\<lparr> row_block_index = 0, row_address = a, row_data_bits = d, row_crc32 = c,
                   row_oligo = oligo, row_block_size = 1024, row_actual_block_size = 1,
                   row_total_file_size = 1 \<rparr>], (1, 1, 1), first_synonym)"
    unfolding encode_file_to_dna_def Let_def read_binary_file_ff
    by (simp add: p bb[unfolded One_nat_def])
  with r xe show ?thesis by simp
qed

text \<open>
  Claim C2, amended. Every call of \<open>encode_bits_to_dna\<close> on a bit string, whatever the
  bits, the choice of synonyms and the starting window, returns a symbol sequence
  without a run of four identical symbols; and every oligo that
  \<open>bits_to_dna_with_crc32\<close> produces is the forward primer, an address field, a payload
  field, a checksum field and the reverse primer, where each of the three fields is
  free of such runs.
\<close>

theorem C2_fields_have_no_run:
  assumes "list_all is_bit field_bits" and "list_all is_bit bits" and "0 < segment_length"
  shows "(\<exists>dna g'. encode_bits_to_dna g field_bits window = Inr (dna, g') \<and> no_run4 dna)
       \<and> (\<exists>rows g'.
             bits_to_dna_with_crc32 g bits fp rp segment_length max_address = Inr (rows, g')
           \<and> list_all (\<lambda>x. \<exists>address_dna data_dna crc32_dna.
                 snd (snd (snd x)) = fp @ address_dna @ data_dna @ crc32_dna @ rp
               \<and> length address_dna = length (fst x)
               \<and> length data_dna = length (fst (snd x))
               \<and> length crc32_dna = length (fst (snd (snd x)))
               \<and> no_run4 address_dna \<and> no_run4 data_dna \<and> no_run4 crc32_dna) rows)"
proof -
  from encode_total[OF is_bit_set[OF assms(1)]] obtain dna g' where
    e: "encode_bits_to_dna g field_bits window = Inr (dna, g')" by blast
  from encode_no_run4[OF e] e have 1:
    "\<exists>dna g'. encode_bits_to_dna g field_bits window = Inr (dna, g') \<and> no_run4 dna" by blast
  from bits_to_dna_with_crc32_ok[OF assms(2,3)] obtain rows g'' where
    r: "bits_to_dna_with_crc32 g bits fp rp segment_length max_address = Inr (rows, g'')"
    and s: "rows_spec fp rp bits segment_length 0 1 rows" by blast
  have "list_all (\<lambda>x. \<exists>address_dna data_dna crc32_dna.
                 snd (snd (snd x)) = fp @ address_dna @ data_dna @ crc32_dna @ rp
               \<and> length address_dna = length (fst x)
               \<and> length data_dna = length (fst (snd x))
               \<and> length crc32_dna = length (fst (snd (snd x)))
               \<and> no_run4 address_dna \<and> no_run4 data_dna \<and> no_run4 crc32_dna) rows"
    unfolding list_all_iff
  proof
    fix x assume "x \<in> set rows"
    from rows_spec_well_encoded[OF s this] obtain a d c oligo ad dd cd where
      x: "x = (a, d, c, oligo)" and o: "oligo = fp @ ad @ dd @ cd @ rp"
      and dec: "decode_dna_to_bits ad = Inr a" "decode_dna_to_bits dd = Inr d"
               "decode_dna_to_bits cd = Inr c"
      and nr: "no_run4 ad" "no_run4 dd" "no_run4 cd"
      unfolding well_encoded_def by (cases x) auto
    from dec have "length ad = length a" "length dd = length d" "length cd = length c"
      by (auto dest: decode_dna_to_bits_bits)
    with x o nr show "\<exists>address_dna data_dna crc32_dna.
                 snd (snd (snd x)) = fp @ address_dna @ data_dna @ crc32_dna @ rp
               \<and> length address_dna = length (fst x)
               \<and> length data_dna = length (fst (snd x))
               \<and> length crc32_dna = length (fst (snd (snd x)))
               \<and> no_run4 address_dna \<and> no_run4 data_dna \<and> no_run4 crc32_dna"
      by auto
  qed
  with r 1 show ?thesis by blast
qed

theorem C2_fields_have_no_run_witness:
  "list_all is_bit ''1111'' \<and> list_all is_bit ''11111111'' \<and> (0::nat) < 12
   \<and> (\<exists>dna g'. encode_bits_to_dna first_synonym ''1111'' [] = Inr (dna, g') \<and> no_run4 dna)"
proof -
  have h1: "list_all is_bit ''1111''" and h2: "list_all is_bit ''11111111''"
    by (simp_all add: is_bit_def)
  have h3: "(0::nat) < 12" by simp
  from C2_fields_have_no_run[OF h1 h2 h3, of first_synonym "[]" "[]" "[]" 1] h1 h2 h3
  show ?thesis by blast
qed

text \<open>
  Claim C3. For every payload of 96 bits the checksum is computed without error, the
  payload verifies against its own checksum, and the payload with any single bit
  flipped does not verify against the checksum of the original.
\<close>

theorem C3_checksum_soundness:
  assumes "length payload_bits = 96" and "list_all is_bit payload_bits" and "i < 96"
  shows "\<exists>checksum_bits.
           calculate_crc32_checksum payload_bits = Inr checksum_bits
         \<and> verify_crc32_checksum payload_bits checksum_bits = Inr True
         \<and> verify_crc32_checksum (flip_bit_at i payload_bits) checksum_bits = Inr False"
proof -
  from assms(1) have ne: "payload_bits \<noteq> []" by auto
  have l: "length payload_bits = 8 * 12" and i: "i < length payload_bits"
    using assms by simp_all
  obtain checksum_bits where c: "calculate_crc32_checksum payload_bits = Inr checksum_bits"
    using calculate_crc32_checksum_bits[OF assms(2) ne] by blast
  have v: "verify_crc32_checksum payload_bits checksum_bits = Inr True"
    using verify_iff_calculate[OF assms(2) ne] c by simp
  have fb: "list_all is_bit (flip_bit_at i payload_bits)"
    by (rule flip_bit_at_bits[OF assms(2)])
  have fne: "flip_bit_at i payload_bits \<noteq> []"
    using ne by (simp add: flip_bit_at_def)
  have "calculate_crc32_checksum (flip_bit_at i payload_bits) \<noteq> Inr checksum_bits"
    using checksum_detects_flip[OF assms(2) l i] c by simp
  then have f: "verify_crc32_checksum (flip_bit_at i payload_bits) checksum_bits = Inr False"
    using verify_iff_calculate[OF fb fne] by simp
  from c v f show ?thesis by blast
qed

theorem C3_checksum_soundness_witness:
  "length zero_payload = 96 \<and> list_all is_bit zero_payload \<and> (5::nat) < 96
   \<and> (\<exists>checksum_bits.
           calculate_crc32_checksum zero_payload = Inr checksum_bits
         \<and> verify_crc32_checksum zero_payload checksum_bits = Inr True
         \<and> verify_crc32_checksum (flip_bit_at 5 zero_payload) checksum_bits = Inr False)"
proof -
  have h1: "length zero_payload = 96" by (simp add: zero_payload_def)
  have h2: "list_all is_bit zero_payload" by (simp add: zero_payload_def)
  have h3: "(5::nat) < 96" by simp
  from C3_checksum_soundness[OF h1 h2 h3] h1 h2 h3 show ?thesis by blast
qed

text \<open>
  Claim C4 at a file of 6291456 bytes encoded as one block of that size. The block has
  524288 segments, and the encoder produces the addresses 1 to 524288 in increasing
  order. The address 524288 does not fit the 19-bit field: its address column has 20
  bits, so the oligo of the last segment is one symbol longer than the others. The
  decoder reads 19 symbols as the address, so every address it stores is below 524288:
  the address 524288 is never observed after decoding, and the addresses observed are not
  the range from 1 to 524288.
\<close>

theorem C4_address_field_overflow:
  assumes "length B = 6291456"
  shows "\<exists>rows summary g'.
           encode_file_to_dna g B None None False 0 6291456 = Inr (rows, summary, g')
           \<and> length rows = 524288
           \<and> (\<forall>i<524288. row_block_index (rows ! i) = 0
                  \<and> binary_value (row_address (rows ! i)) = i + 1)
           \<and> length (row_address (rows ! 524287)) = 20
           \<and> (\<forall>key \<in> fst ` set (decoded_blocks
                    (decode_rows DEFAULT_FORWARD_PRIMER DEFAULT_REVERSE_PRIMER rows)).
                  snd key < 524288)"
proof -
  from one_block_file[OF assms, of g]
  obtain rows summary g' where
    e: "encode_file_to_dna g B None None False 0 6291456 = Inr (rows, summary, g')"
    and lr: "length rows = 524288"
    and el: "\<forall>i<length rows. row_block_index (rows ! i) = 0
                  \<and> row_address (rows ! i) = format_0b 19 (1 + i)"
    by blast
  have a: "\<forall>i<524288. row_block_index (rows ! i) = 0
                  \<and> binary_value (row_address (rows ! i)) = i + 1"
    using el lr by simp
  have "row_address (rows ! 524287) = format_0b 19 524288"
    using el lr by simp
  then have b: "length (row_address (rows ! 524287)) = 20"
    by (simp only: length_address_overflow)
  have c: "\<forall>key \<in> fst ` set (decoded_blocks
                    (decode_rows DEFAULT_FORWARD_PRIMER DEFAULT_REVERSE_PRIMER rows)).
                  snd key < 524288"
    using decoded_addresses_bound by blast
  from e lr a b c show ?thesis by blast
qed

theorem C4_address_field_overflow_witness:
  "length (replicate 6291456 (0 :: byte)) = 6291456
   \<and> (\<exists>rows summary g'.
         encode_file_to_dna first_synonym (replicate 6291456 0) None None False 0 6291456
           = Inr (rows, summary, g')
         \<and> length rows = 524288
         \<and> binary_value (row_address (rows ! 524287)) = 524288
         \<and> length (row_address (rows ! 524287)) = 20
         \<and> (0, 524288) \<notin> fst ` set (decoded_blocks
               (decode_rows DEFAULT_FORWARD_PRIMER DEFAULT_REVERSE_PRIMER rows)))"
proof -
  have h: "length (replicate 6291456 (0 :: byte)) = 6291456" by simp
  from C4_address_field_overflow[OF h, of first_synonym]
  obtain rows summary g' where
    e: "encode_file_to_dna first_synonym (replicate 6291456 0) None None False 0 6291456
          = Inr (rows, summary, g')"
    and lr: "length rows = 524288"
    and a: "\<forall>i<524288. row_block_index (rows ! i) = 0
                  \<and> binary_value (row_address (rows ! i)) = i + 1"
    and b: "length (row_address (rows ! 524287)) = 20"
    and c: "\<forall>key \<in> fst ` set (decoded_blocks
                    (decode_rows DEFAULT_FORWARD_PRIMER DEFAULT_REVERSE_PRIMER rows)).
                  snd key < 524288"
    by blast
  from a have a': "binary_value (row_address (rows ! 524287)) = 524288" by simp
  from c have c': "(0, 524288) \<notin> fst ` set (decoded_blocks
               (decode_rows DEFAULT_FORWARD_PRIMER DEFAULT_REVERSE_PRIMER rows))"
    by auto
  from h e lr a' b c' show ?thesis by blast
qed

text \<open>
  Claim C7. When the core of an oligo, after the matching primers are removed, has fewer
  than 19 + 96 symbols, \<open>extract_oligo_parts\<close> returns the absent value and raises
  nothing. In the batch the row adds one entry to the list of errors and nothing else:
  the decoded segments and the checksum counters at the end are those of the batch
  without the row, so the rows after it are processed as usual.
\<close>

theorem C7_short_record_is_skipped:
  assumes "length (core_sequence (strip (row_oligo r)) fp rp) < 19 + 96"
  shows "(\<forall>oligo. length (core_sequence oligo fp rp) < 19 + 96
            \<longrightarrow> extract_oligo_parts oligo fp rp = None)
       \<and> decode_row fp rp st (n, r) = add_error (ExtractFailed n) (note_metadata r st)
       \<and> same_segments (decode_rows fp rp (before @ r # after))
                       (decode_rows fp rp (before @ after))
       \<and> length (errors (decode_rows fp rp (before @ r # after)))
           = length (errors (decode_rows fp rp (before @ after))) + 1"
proof -
  let ?s0 = "decode_rows fp rp before"
  let ?s1 = "decode_row fp rp ?s0 (2 + length before, r)"
  have s1: "?s1 = add_error (ExtractFailed (2 + length before)) (note_metadata r ?s0)"
    by (rule decode_row_short[OF assms])
  have a: "\<forall>oligo. length (core_sequence oligo fp rp) < 19 + 96
            \<longrightarrow> extract_oligo_parts oligo fp rp = None"
    by (simp add: extract_oligo_parts_def Let_def)
  have b: "decode_row fp rp st (n, r) = add_error (ExtractFailed n) (note_metadata r st)"
    by (rule decode_row_short[OF assms])
  have eq1: "decode_rows fp rp (before @ r # after) =
     foldl (decode_row fp rp) ?s1
       (zip [Suc (2 + length before)..<Suc (2 + length before) + length after] after)"
    by (rule decode_rows_split)
  have eq2: "decode_rows fp rp (before @ after) =
     foldl (decode_row fp rp) ?s0
       (zip [2 + length before..<2 + length before + length after] after)"
    by (rule decode_rows_append)
  have ss: "same_segments ?s1 ?s0" by (simp only: s1 same_segments_add_error same_segments_meta same_segments_refl)
  have c: "same_segments (decode_rows fp rp (before @ r # after))
                         (decode_rows fp rp (before @ after))"
    unfolding eq1 eq2
    by (rule foldl_decode_row_same_segments[OF ss]) (simp_all only: length_upt add_diff_cancel_left')
  have e1: "length (errors ?s1) = length (errors ?s0) + 1"
    by (subst s1) (simp add: add_error_def note_metadata_def Let_def)
  have "length (errors (foldl (decode_row fp rp) ?s1
             (zip [Suc (2 + length before)..<Suc (2 + length before) + length after] after)))
          + length (errors ?s0)
        = length (errors (foldl (decode_row fp rp) ?s0
             (zip [2 + length before..<2 + length before + length after] after)))
          + length (errors ?s1)"
    by (rule foldl_decode_row_errors) (simp_all only: length_upt add_diff_cancel_left')
  then have d: "length (errors (decode_rows fp rp (before @ r # after)))
           = length (errors (decode_rows fp rp (before @ after))) + 1"
    unfolding eq1 eq2 e1 by arith
  from a b c d show ?thesis by blast
qed

theorem C7_short_record_is_skipped_witness:
  "length (core_sequence (strip (row_oligo short_row)) [] []) < 19 + 96
   \<and> extract_oligo_parts (strip (row_oligo short_row)) [] [] = None
   \<and> length (errors (decode_rows [] [] ([] @ short_row # [])))
       = length (errors (decode_rows [] [] ([] @ []))) + 1"
proof -
  have h: "length (core_sequence (strip (row_oligo short_row)) [] []) < 19 + 96"
    by (simp add: short_row_def strip_def is_space_def core_sequence_def)
  from C7_short_record_is_skipped[OF h, of initial_decode_state 2 "[]" "[]"] h
  show ?thesis by blast
qed

text \<open>
  Claim C8, as stated, fails: the result of \<open>bits_to_dna_with_crc32\<close> is the list of
  segments and nothing else. With a ceiling of one address, a bit string of two segments
  is encoded to one segment, and the result is equal to that of the complete encoding of
  its first segment alone, so nothing in it tells that the input was cut.
\<close>

theorem C8_truncation_unsignalled_counterexample:
  "bits_to_dna_with_crc32 first_synonym (replicate 192 (CHR ''0'')) [] [] 12 1
     = bits_to_dna_with_crc32 first_synonym (replicate 96 (CHR ''0'')) [] [] 12 1
   \<and> map_sum id (\<lambda>result. length (fst result))
         (bits_to_dna_with_crc32 first_synonym (replicate 192 (CHR ''0'')) [] [] 12 1) = Inr 1"
proof -
  have b: "list_all is_bit (replicate 192 (CHR ''0''))" by simp
  have t: "take (1 * (12 * 8)) (replicate 192 (CHR ''0'')) = replicate 96 (CHR ''0'')" by simp
  have e: "bits_to_dna_with_crc32 first_synonym (replicate 96 (CHR ''0'')) [] [] 12 1
           = bits_to_dna_with_crc32 first_synonym (replicate 192 (CHR ''0'')) [] [] 12 1"
    using bits_to_dna_with_crc32_take[OF b, of first_synonym 1 12 "[]" "[]"] unfolding t .
  from bits_to_dna_with_crc32_ok[OF b, of 12 first_synonym "[]" "[]" 1] obtain rows g' where
    "bits_to_dna_with_crc32 first_synonym (replicate 192 (CHR ''0'')) [] [] 12 1 = Inr (rows, g')"
    "length rows = 1" by auto
  with e show ?thesis by simp
qed

text \<open>
  Claim C8, amended. When the bit string has more segments than the ceiling
  \<open>max_address\<close> allows, \<open>bits_to_dna_with_crc32\<close> stops early and returns exactly
  \<open>max_address\<close> segments, without an error; the value returned is the one returned for
  the bit string cut to its first \<open>max_address\<close> segments, and carries no sign of the
  truncation.
\<close>

theorem C8_truncation_is_silent:
  assumes "list_all is_bit bits" and "0 < segment_length"
    and "max_address * (segment_length * 8) < length bits"
  shows "\<exists>rows g'.
           bits_to_dna_with_crc32 g bits fp rp segment_length max_address = Inr (rows, g')
         \<and> length rows = max_address
         \<and> max_address < (length bits + segment_length * 8 - 1) div (segment_length * 8)
         \<and> bits_to_dna_with_crc32 g (take (max_address * (segment_length * 8)) bits) fp rp
              segment_length max_address = Inr (rows, g')"
proof -
  let ?m = "segment_length * 8"
  from bits_to_dna_with_crc32_ok[OF assms(1,2), of g fp rp max_address] obtain rows g' where
    r: "bits_to_dna_with_crc32 g bits fp rp segment_length max_address = Inr (rows, g')"
    and l: "length rows = min ((length bits + ?m - 1) div ?m) max_address" by blast
  have "(max_address + 1) * ?m \<le> length bits + ?m - 1" using assms(3) by simp
  then have "((max_address + 1) * ?m) div ?m \<le> (length bits + ?m - 1) div ?m"
    by (rule div_le_mono)
  then have c: "max_address < (length bits + ?m - 1) div ?m" using assms(2) by simp
  with l have "length rows = max_address" by simp
  with r c bits_to_dna_with_crc32_take[OF assms(1), of g max_address segment_length fp rp]
  show ?thesis by simp
qed

theorem C8_truncation_is_silent_witness:
  "list_all is_bit (replicate 192 (CHR ''0'')) \<and> (0::nat) < 12
   \<and> (1::nat) * (12 * 8) < length (replicate 192 (CHR ''0''))
   \<and> (\<exists>rows g'.
         bits_to_dna_with_crc32 second_synonym (replicate 192 (CHR ''0'')) [] [] 12 1
           = Inr (rows, g')
       \<and> length rows = 1)"
proof -
  have h1: "list_all is_bit (replicate 192 (CHR ''0''))" by simp
  have h2: "(0::nat) < 12" by simp
  have h3: "(1::nat) * (12 * 8) < length (replicate 192 (CHR ''0''))" by simp
  from C8_truncation_is_silent[OF h1 h2 h3, of second_synonym "[]" "[]"] h1 h2 h3
  show ?thesis by blast
qed

lemma short_row_batch:
  "decode_rows [] [] [short_row]
   = add_error (ExtractFailed 2) (note_metadata short_row initial_decode_state)"
proof -
  have h: "length (core_sequence (strip (row_oligo short_row)) [] []) < 19 + 96"
    by (simp add: short_row_def strip_def is_space_def core_sequence_def)
  have "[2..<2 + length [short_row]] = [2]" by (simp add: upt_rec)
  then show ?thesis
    by (simp add: decode_rows_def decode_row_short[OF h])
qed

text \<open>
  Claim C9, as stated, fails: not every processed record falls into one of the three
  classes. A row whose oligo is too short is processed by the batch and reaches none of
  them: the three counters stay 0 and the row is in the list of errors.
\<close>

theorem C9_unclassified_record_counterexample:
  "info_crc_stats (block_info (decode_rows [] [] [short_row]))
     = \<lparr> valid = 0, invalid = 0, missing = 0 \<rparr>
   \<and> errors (decode_rows [] [] [short_row]) = [ExtractFailed 2]"
  by (simp add: short_row_batch add_error_def note_metadata_def Let_def initial_decode_state_def)

text \<open>
  Claim C9, as amended. Take a row whose oligo yields the three regions and whose
  address, payload and (when it has at least 32 symbols) checksum region decode to bits.
  If the checksum region has at least 32 symbols and the recomputed checksum differs
  from the decoded one, the counter \<open>invalid\<close> alone goes up by one, the row is reported
  as an error and the decoded segment map is unchanged. If the checksums agree, \<open>valid\<close>
  alone goes up by one and the payload is stored under (block index, address). If the
  checksum region is shorter than 32 symbols, \<open>missing\<close> alone goes up by one and the
  payload is stored. Every other row (too short to yield the regions, or with a symbol
  outside the alphabet in a region that is decoded) reaches no class: the three counters
  and the decoded segment map are unchanged and one error is recorded.
\<close>

theorem C9_checksum_classes:
  "(extract_oligo_parts (strip (row_oligo r)) fp rp = Some (address_dna, data_dna, crc32_dna)
    \<and> decode_dna_to_bits address_dna = Inr address_bits
    \<and> decode_dna_to_bits data_dna = Inr data_bits
    \<and> (32 \<le> length crc32_dna \<longrightarrow> decode_dna_to_bits (take 32 crc32_dna) = Inr crc32_bits)
    \<longrightarrow>
       (32 \<le> length crc32_dna \<and> calculate_crc32_checksum data_bits \<noteq> Inr crc32_bits \<longrightarrow>
            info_crc_stats (block_info (decode_row fp rp st (n, r)))
              = (info_crc_stats (block_info st))
                  \<lparr> invalid := invalid (info_crc_stats (block_info st)) + 1 \<rparr>
          \<and> decoded_blocks (decode_row fp rp st (n, r)) = decoded_blocks st
          \<and> errors (decode_row fp rp st (n, r)) = errors st @ [ChecksumFailed n])
       \<and> (32 \<le> length crc32_dna \<and> calculate_crc32_checksum data_bits = Inr crc32_bits \<longrightarrow>
            info_crc_stats (block_info (decode_row fp rp st (n, r)))
              = (info_crc_stats (block_info st))
                  \<lparr> valid := valid (info_crc_stats (block_info st)) + 1 \<rparr>
          \<and> decoded_blocks (decode_row fp rp st (n, r))
              = AList.update (row_block_index r, binary_value address_bits) data_bits
                  (decoded_blocks st)
          \<and> errors (decode_row fp rp st (n, r)) = errors st)
       \<and> (length crc32_dna < 32 \<longrightarrow>
            info_crc_stats (block_info (decode_row fp rp st (n, r)))
              = (info_crc_stats (block_info st))
                  \<lparr> missing := missing (info_crc_stats (block_info st)) + 1 \<rparr>
          \<and> decoded_blocks (decode_row fp rp st (n, r))
              = AList.update (row_block_index r, binary_value address_bits) data_bits
                  (decoded_blocks st)
          \<and> errors (decode_row fp rp st (n, r)) = errors st))
   \<and> (extract_oligo_parts (strip (row_oligo r)) fp rp = None
       \<or> (\<exists>address_dna data_dna crc32_dna.
             extract_oligo_parts (strip (row_oligo r)) fp rp
               = Some (address_dna, data_dna, crc32_dna)
             \<and> (isl (decode_dna_to_bits address_dna)
                \<or> isl (decode_dna_to_bits data_dna)
                \<or> 32 \<le> length crc32_dna \<and> isl (decode_dna_to_bits (take 32 crc32_dna))))
    \<longrightarrow>
       info_crc_stats (block_info (decode_row fp rp st (n, r))) = info_crc_stats (block_info st)
     \<and> decoded_blocks (decode_row fp rp st (n, r)) = decoded_blocks st
     \<and> (\<exists>e. errors (decode_row fp rp st (n, r)) = errors st @ [e]))"
proof (intro conjI impI)
  assume h: "extract_oligo_parts (strip (row_oligo r)) fp rp = None
       \<or> (\<exists>address_dna data_dna crc32_dna.
             extract_oligo_parts (strip (row_oligo r)) fp rp
               = Some (address_dna, data_dna, crc32_dna)
             \<and> (isl (decode_dna_to_bits address_dna)
                \<or> isl (decode_dna_to_bits data_dna)
                \<or> 32 \<le> length crc32_dna \<and> isl (decode_dna_to_bits (take 32 crc32_dna))))"
  from decode_row_rejected[OF h, of st n] obtain e where
    e: "decode_row fp rp st (n, r) = add_error e (note_metadata r st)" by blast
  show "info_crc_stats (block_info (decode_row fp rp st (n, r))) = info_crc_stats (block_info st)"
    by (simp add: e add_error_def note_metadata_def Let_def)
  show "decoded_blocks (decode_row fp rp st (n, r)) = decoded_blocks st"
    by (simp add: e add_error_def note_metadata_def Let_def)
  show "\<exists>e. errors (decode_row fp rp st (n, r)) = errors st @ [e]"
    by (simp add: e add_error_def note_metadata_def Let_def)
next
  assume h: "extract_oligo_parts (strip (row_oligo r)) fp rp = Some (address_dna, data_dna, crc32_dna)
    \<and> decode_dna_to_bits address_dna = Inr address_bits
    \<and> decode_dna_to_bits data_dna = Inr data_bits
    \<and> (32 \<le> length crc32_dna \<longrightarrow> decode_dna_to_bits (take 32 crc32_dna) = Inr crc32_bits)"
  then have x: "extract_oligo_parts (strip (row_oligo r)) fp rp
                  = Some (address_dna, data_dna, crc32_dna)"
    and a: "decode_dna_to_bits address_dna = Inr address_bits"
    and d: "decode_dna_to_bits data_dna = Inr data_bits"
    and c: "32 \<le> length crc32_dna \<Longrightarrow> decode_dna_to_bits (take 32 crc32_dna) = Inr crc32_bits"
    by simp_all
  note cl = decode_row_classified[OF x a d, of st n]
  {
    assume "32 \<le> length crc32_dna \<and> calculate_crc32_checksum data_bits \<noteq> Inr crc32_bits"
    then have l: "32 \<le> length crc32_dna"
      and ne: "calculate_crc32_checksum data_bits \<noteq> Inr crc32_bits" by simp_all
    have r: "decode_row fp rp st (n, r)
             = add_error (ChecksumFailed n) (count_invalid (note_metadata r st))"
      unfolding cl c[OF l] using l ne by simp
    show "info_crc_stats (block_info (decode_row fp rp st (n, r)))
              = (info_crc_stats (block_info st))
                  \<lparr> invalid := invalid (info_crc_stats (block_info st)) + 1 \<rparr>"
      by (simp add: r add_error_def count_invalid_def note_metadata_def Let_def)
    show "decoded_blocks (decode_row fp rp st (n, r)) = decoded_blocks st"
      by (simp add: r add_error_def count_invalid_def note_metadata_def Let_def)
    show "errors (decode_row fp rp st (n, r)) = errors st @ [ChecksumFailed n]"
      by (simp add: r add_error_def count_invalid_def note_metadata_def Let_def)
  }
  {
    assume "32 \<le> length crc32_dna \<and> calculate_crc32_checksum data_bits = Inr crc32_bits"
    then have l: "32 \<le> length crc32_dna"
      and eq: "calculate_crc32_checksum data_bits = Inr crc32_bits" by simp_all
    have r: "decode_row fp rp st (n, r)
             = (count_valid (note_metadata r st))\<lparr> decoded_blocks :=
                      AList.update (row_block_index r, binary_value address_bits) data_bits
                        (decoded_blocks st) \<rparr>"
      unfolding cl c[OF l] using l eq by simp
    show "info_crc_stats (block_info (decode_row fp rp st (n, r)))
              = (info_crc_stats (block_info st))
                  \<lparr> valid := valid (info_crc_stats (block_info st)) + 1 \<rparr>"
      by (simp add: r count_valid_def note_metadata_def Let_def)
    show "decoded_blocks (decode_row fp rp st (n, r))
              = AList.update (row_block_index r, binary_value address_bits) data_bits
                  (decoded_blocks st)"
      by (simp add: r)
    show "errors (decode_row fp rp st (n, r)) = errors st"
      by (simp add: r count_valid_def note_metadata_def Let_def)
  }
  {
    assume l: "length crc32_dna < 32"
    have r: "decode_row fp rp st (n, r)
             = (count_missing (note_metadata r st))\<lparr> decoded_blocks :=
                      AList.update (row_block_index r, binary_value address_bits) data_bits
                        (decoded_blocks st) \<rparr>"
      unfolding cl using l by simp
    show "info_crc_stats (block_info (decode_row fp rp st (n, r)))
              = (info_crc_stats (block_info st))
                  \<lparr> missing := missing (info_crc_stats (block_info st)) + 1 \<rparr>"
      by (simp add: r count_missing_def note_metadata_def Let_def)
    show "decoded_blocks (decode_row fp rp st (n, r))
              = AList.update (row_block_index r, binary_value address_bits) data_bits
                  (decoded_blocks st)"
      by (simp add: r)
    show "errors (decode_row fp rp st (n, r)) = errors st"
      by (simp add: r count_missing_def note_metadata_def Let_def)
  }
qed

theorem C9_checksum_classes_witness:
  "extract_oligo_parts (strip (row_oligo poly_a_row)) [] []
     = Some (replicate 19 (CHR ''A''), replicate 96 (CHR ''A''), replicate 32 (CHR ''A''))
   \<and> decode_dna_to_bits (replicate 19 (CHR ''A'')) = Inr (replicate 19 (CHR ''0''))
   \<and> decode_dna_to_bits (replicate 96 (CHR ''A'')) = Inr (replicate 96 (CHR ''0''))
   \<and> decode_dna_to_bits (take 32 (replicate 32 (CHR ''A''))) = Inr (replicate 32 (CHR ''0''))
   \<and> valid (info_crc_stats (block_info (decode_row [] [] initial_decode_state (2, poly_a_row))))
     + invalid (info_crc_stats (block_info (decode_row [] [] initial_decode_state (2, poly_a_row))))
     + missing (info_crc_stats (block_info (decode_row [] [] initial_decode_state (2, poly_a_row))))
     = 1
   \<and> extract_oligo_parts (strip (row_oligo short_row)) [] [] = None
   \<and> info_crc_stats (block_info (decode_row [] [] initial_decode_state (2, short_row)))
     = \<lparr> valid = 0, invalid = 0, missing = 0 \<rparr>"
proof -
  have h4: "decode_dna_to_bits (take 32 (replicate 32 (CHR ''A''))) = Inr (replicate 32 (CHR ''0''))"
    by (simp add: decode_replicate_A)
  have l: "32 \<le> length (replicate 32 (CHR ''A''))" by simp
  have p: "extract_oligo_parts (strip (row_oligo poly_a_row)) [] []
             = Some (replicate 19 (CHR ''A''), replicate 96 (CHR ''A''), replicate 32 (CHR ''A''))
           \<and> decode_dna_to_bits (replicate 19 (CHR ''A'')) = Inr (replicate 19 (CHR ''0''))
           \<and> decode_dna_to_bits (replicate 96 (CHR ''A'')) = Inr (replicate 96 (CHR ''0''))
           \<and> (32 \<le> length (replicate 32 (CHR ''A'')) \<longrightarrow>
                decode_dna_to_bits (take 32 (replicate 32 (CHR ''A'')))
                  = Inr (replicate 32 (CHR ''0'')))"
    using poly_a_extract decode_replicate_A h4 by simp
  note t = mp[OF conjunct1[OF C9_checksum_classes[where r = poly_a_row and fp = "[]"
             and rp = "[]" and st = initial_decode_state and n = 2]] p]
  have one: "valid (info_crc_stats (block_info (decode_row [] [] initial_decode_state (2, poly_a_row))))
     + invalid (info_crc_stats (block_info (decode_row [] [] initial_decode_state (2, poly_a_row))))
     + missing (info_crc_stats (block_info (decode_row [] [] initial_decode_state (2, poly_a_row))))
     = 1"
  proof (cases "calculate_crc32_checksum (replicate 96 (CHR ''0'')) = Inr (replicate 32 (CHR ''0''))")
    case True
    with t l show ?thesis by (simp add: initial_decode_state_def)
  next
    case False
    with t l show ?thesis by (simp add: initial_decode_state_def)
  qed
  have x: "extract_oligo_parts (strip (row_oligo short_row)) [] [] = None"
    by (simp add: short_row_def strip_def is_space_def core_sequence_def
          extract_oligo_parts_def Let_def)
  from conjunct2[OF C9_checksum_classes[where r = short_row and fp = "[]" and rp = "[]"
         and st = initial_decode_state and n = 2]] x
  have "info_crc_stats (block_info (decode_row [] [] initial_decode_state (2, short_row)))
          = info_crc_stats (block_info initial_decode_state)" by blast
  then have none: "info_crc_stats (block_info (decode_row [] [] initial_decode_state (2, short_row)))
     = \<lparr> valid = 0, invalid = 0, missing = 0 \<rparr>"
    by (simp add: initial_decode_state_def)
  from p h4 one x none show ?thesis by blast
qed

text \<open>
  Claim C10. The decoding table sends A and C to bit 0 and G and T to bit 1, the
  homopolymer substitution exchanges A with C and G with T and so never leaves the bit
  class, and hence for every bit string, every choice of synonyms and every starting
  window the encoder produces a symbol sequence that decodes to that bit string.
\<close>

theorem C10_decode_independent_of_synonyms:
  assumes "list_all is_bit bits"
  shows "map BASE_TO_BIT ''ACGT'' = map Some ''0011''
       \<and> map synonyms ''ACGT'' = map Some ''CATG''
       \<and> (\<forall>window chosen base. avoid_homopolymer window chosen = Inr base
             \<longrightarrow> BASE_TO_BIT base = BASE_TO_BIT chosen)
       \<and> (\<exists>dna g'. encode_bits_to_dna g bits last_bases = Inr (dna, g')
             \<and> decode_dna_to_bits dna = Inr bits)"
proof -
  have t: "map BASE_TO_BIT ''ACGT'' = map Some ''0011''"
    by (simp add: BASE_TO_BIT_def)
  have s: "map synonyms ''ACGT'' = map Some ''CATG''"
    by (simp add: synonyms_def)
  have a: "\<forall>window chosen base. avoid_homopolymer window chosen = Inr base
             \<longrightarrow> BASE_TO_BIT base = BASE_TO_BIT chosen"
    using avoid_homopolymer_class by blast
  from assms have "set bits \<subseteq> {CHR ''0'', CHR ''1''}"
    by (auto simp: list_all_iff is_bit_def)
  from encode_total[OF this] obtain dna g' where
    e: "encode_bits_to_dna g bits last_bases = Inr (dna, g')" by blast
  from decode_encode[OF e] e t s a show ?thesis by blast
qed

theorem C10_decode_independent_of_synonyms_witness:
  "list_all is_bit ''0110''
   \<and> (\<exists>dna g'. encode_bits_to_dna second_synonym ''0110'' [] = Inr (dna, g')
         \<and> decode_dna_to_bits dna = Inr ''0110'')"
proof -
  have h: "list_all is_bit ''0110''" by (simp add: is_bit_def)
  from C10_decode_independent_of_synonyms[OF h, of second_synonym "[]"] h
  show ?thesis by blast
qed

end
